theory Spec2Isabelle
  imports Main "HOL-Library.Sublist"
begin

section \<open>Python values used by scrape\_value.py\<close>

text \<open>
  Strings are character lists. The script only inspects the ASCII characters of its
  delimiters, so the width of a character plays no role.
\<close>

abbreviation LF :: char where "LF \<equiv> CHR 0x0A"
abbreviation CR :: char where "CR \<equiv> CHR 0x0D"
abbreviation DQUOTE :: char where "DQUOTE \<equiv> CHR 0x22"
abbreviation COMMA :: char where "COMMA \<equiv> CHR 0x2C"

datatype error =
    ValueError string
  | KeyError string
  | NoSuchElementException string
  | WebDriverException string

subsection \<open>str.replace with one-character arguments, str.split, str.join\<close>

definition str_replace :: "string \<Rightarrow> char \<Rightarrow> char \<Rightarrow> string" where
  "str_replace s old new = map (\<lambda>c. if c = old then new else c) s"

text \<open>
  \<open>s.split(sep)\<close> scans from the left; at every position where \<open>sep\<close> starts it closes
  the current piece and resumes after the separator, so matches never overlap.
  An empty separator raises ValueError.
\<close>

function split_from :: "string \<Rightarrow> string \<Rightarrow> string \<Rightarrow> string list" where
  "split_from sep cur [] = [cur]"
| "split_from sep cur (c # cs) =
     (if sep \<noteq> [] \<and> prefix sep (c # cs)
      then cur # split_from sep [] (drop (length sep) (c # cs))
      else split_from sep (cur @ [c]) cs)"
  by pat_completeness auto
termination
  by (relation "measure (\<lambda>(sep, cur, s). length s)") (auto simp: neq_Nil_conv)

definition str_split :: "string \<Rightarrow> string \<Rightarrow> error + string list" where
  "str_split s sep =
     (if sep = [] then Inl (ValueError ''empty separator'') else Inr (split_from sep [] s))"

fun str_join :: "string \<Rightarrow> string list \<Rightarrow> string" where
  "str_join sep [] = []"
| "str_join sep [x] = x"
| "str_join sep (x # y # ys) = x @ sep @ str_join sep (y # ys)"

text \<open>Unpacking \<open>a, b = parts\<close> raises ValueError unless there are exactly two parts.\<close>

fun unpack2 :: "string list \<Rightarrow> error + string \<times> string" where
  "unpack2 [a, b] = Inr (a, b)"
| "unpack2 (a # b # c # rest) = Inl (ValueError ''too many values to unpack (expected 2)'')"
| "unpack2 parts = Inl (ValueError ''not enough values to unpack (expected 2)'')"

text \<open>
  \<open>s.count(sep)\<close>: the occurrences of \<open>sep\<close> met by the same scan from the left, which
  do not overlap.
\<close>

function count_from :: "string \<Rightarrow> string \<Rightarrow> nat" where
  "count_from sep [] = 0"
| "count_from sep (c # cs) =
     (if sep \<noteq> [] \<and> prefix sep (c # cs)
      then Suc (count_from sep (drop (length sep) (c # cs)))
      else count_from sep cs)"
  by pat_completeness auto
termination
  by (relation "measure (\<lambda>(sep, s). length s)") (auto simp: neq_Nil_conv)

text \<open>The number of positions of \<open>s\<close> at which \<open>sep\<close> occurs as a substring.\<close>

fun occurrences :: "string \<Rightarrow> string \<Rightarrow> nat" where
  "occurrences sep [] = 0"
| "occurrences sep (c # cs) = (if prefix sep (c # cs) then 1 else 0) + occurrences sep cs"

subsection \<open>Dictionaries with insertion order\<close>

type_synonym dict = "(string \<times> string) list"

definition dict_keys :: "dict \<Rightarrow> string list" where
  "dict_keys d = map fst d"

definition dict_setitem :: "dict \<Rightarrow> string \<Rightarrow> string \<Rightarrow> dict" where
  "dict_setitem d k v =
     (if k \<in> set (dict_keys d)
      then map (\<lambda>(k', v'). if k' = k then (k', v) else (k', v')) d
      else d @ [(k, v)])"

definition dict_getitem :: "dict \<Rightarrow> string \<Rightarrow> error + string" where
  "dict_getitem d k = (case map_of d k of None \<Rightarrow> Inl (KeyError k) | Some v \<Rightarrow> Inr v)"

definition dict_get :: "dict \<Rightarrow> string \<Rightarrow> string \<Rightarrow> string" where
  "dict_get d k dflt = (case map_of d k of None \<Rightarrow> dflt | Some v \<Rightarrow> v)"

section \<open>The world the script acts on\<close>

text \<open>
  A table row as Selenium presents it: its visible text, and for an XPath relative to the
  row the innerHTML of the first element found there (\<open>None\<close> when
  \<open>find_element_by_xpath\<close> raises NoSuchElementException).
\<close>

record web_element =
  elem_text :: string
  inner_html :: "string \<Rightarrow> string option"

text \<open>
  The site: for a URL, the rows that the base XPath selects on the loaded page
  (\<open>None\<close> when \<open>driver.get\<close> raises).
\<close>

type_synonym website = "string \<Rightarrow> web_element list option"

datatype level = DEBUG | INFO | WARNING

datatype arg = S string | I int

datatype event =
    Log level string "arg list"
  | ChromeStart
  | SetPageLoadTimeout int
  | DriverGet string
  | FindElements string
  | DriverClose
  | FileOpen string
  | FileWrite string string
  | FileClose string

text \<open>
  What the script does to its surroundings is recorded in order in \<open>events\<close>; \<open>files\<close> maps
  a file name to the text the file holds. A function of the script takes the world and
  returns its outcome, \<open>Inl\<close> for an exception that leaves it, with the world it leaves
  behind.
\<close>

record world =
  events :: "event list"
  files :: "string \<Rightarrow> string option"

definition emit :: "event \<Rightarrow> world \<Rightarrow> world" where
  "emit e w = w\<lparr>events := events w @ [e]\<rparr>"

section \<open>Module constants\<close>

definition YAHOO_RESULTS_PER_PAGE :: int where
  "YAHOO_RESULTS_PER_PAGE = 50"

definition fields :: "string list" where
  "fields = [''Name'', ''Position'', ''Team'', ''Projected Value'', ''Average Cost'',
             ''Percent Drafted'']"

definition XPATH_MAP :: "(string \<times> string) list" where
  "XPATH_MAP =
     [(''Name'', ''td[1]/div/div[1]/div/a''),
      (''Position'', ''td[1]/div/div[1]/div/span''),
      (''Projected Value'', ''td[2]/div''),
      (''Average Cost'', ''td[3]/div''),
      (''Percent Drafted'', ''td[4]/div'')]"

section \<open>process\_player\<close>

text \<open>
  The loop over \<open>XPATH_MAP.items()\<close>, in the order of the dictionary literal: the first
  cell that is not found raises.
\<close>

fun find_values :: "web_element \<Rightarrow> (string \<times> string) list \<Rightarrow> dict \<Rightarrow> error + dict" where
  "find_values player_row [] draft_values = Inr draft_values"
| "find_values player_row ((col_name, xpath) # rest) draft_values =
     (case inner_html player_row xpath of
        None \<Rightarrow> Inl (NoSuchElementException xpath)
      | Some v \<Rightarrow> find_values player_row rest (dict_setitem draft_values col_name v))"

text \<open>
  Lines 54 to 56: the combined cell is split on \<open>" - "\<close> and unpacked into team and
  position, in this order; Position is overwritten and Team is added.
\<close>

definition split_position :: "dict \<Rightarrow> error + dict" where
  "split_position draft_values =
     (case dict_getitem draft_values ''Position'' of
        Inl e \<Rightarrow> Inl e
      | Inr combined \<Rightarrow>
          (case str_split combined '' - '' of
             Inl e \<Rightarrow> Inl e
           | Inr parts \<Rightarrow>
               (case unpack2 parts of
                  Inl e \<Rightarrow> Inl e
                | Inr (team, position) \<Rightarrow>
                    Inr (dict_setitem (dict_setitem draft_values ''Position'' position)
                           ''Team'' team))))"

definition process_player :: "web_element \<Rightarrow> world \<Rightarrow> (error + dict) \<times> world" where
  "process_player player_row w =
     (let w1 = emit (Log DEBUG ''%s'' [S (str_replace (elem_text player_row) LF (CHR '' ''))]) w
      in case find_values player_row XPATH_MAP [] of
           Inl e \<Rightarrow> (Inl e, w1)
         | Inr draft_values \<Rightarrow> (split_position draft_values, w1))"

section \<open>process\_page\<close>

text \<open>The loop over the rows of a page: the first row that raises ends it.\<close>

fun process_rows :: "web_element list \<Rightarrow> dict list \<Rightarrow> world \<Rightarrow> (error + dict list) \<times> world" where
  "process_rows [] auction_values_list w = (Inr auction_values_list, w)"
| "process_rows (row # rows) auction_values_list w =
     (case process_player row w of
        (Inl e, w1) \<Rightarrow> (Inl e, w1)
      | (Inr stats_item, w1) \<Rightarrow> process_rows rows (auction_values_list @ [stats_item]) w1)"

text \<open>The conversion \<open>%d\<close> of an integer.\<close>

definition digit_char :: "nat \<Rightarrow> char" where
  "digit_char n = ''0123456789'' ! (n mod 10)"

function dec_digits :: "nat \<Rightarrow> string" where
  "dec_digits n = (if n < 10 then [digit_char n] else dec_digits (n div 10) @ [digit_char n])"
  by pat_completeness auto
termination
  by (relation "measure (\<lambda>n. n)") auto

declare dec_digits.simps [simp del]

definition format_d :: "int \<Rightarrow> string" where
  "format_d i = (if i < 0 then CHR ''-'' # dec_digits (nat (- i)) else dec_digits (nat i))"

definition page_url :: "int \<Rightarrow> string" where
  "page_url cnt =
     ''https://football.fantasysports.yahoo.com/f1/draftanalysis?tab=AD&pos=ALL&sort=DA_PC&count=''
       @ format_d cnt"

definition base_xpath :: string where
  "base_xpath = ''//*[@id=\"draftanalysistable\"]/tbody/tr''"

definition page_warning :: "int \<Rightarrow> int \<Rightarrow> event" where
  "page_warning n cnt =
     Log WARNING ''Only scraped %d rows @ count %d, expected to scrape %d''
       [I n, I cnt, I YAHOO_RESULTS_PER_PAGE]"

definition process_page :: "website \<Rightarrow> int \<Rightarrow> world \<Rightarrow> (error + dict list) \<times> world" where
  "process_page driver cnt w =
     (let w1 = emit (Log INFO ''Getting stats for count %d'' [I cnt]) w;
          url = page_url cnt;
          w2 = emit (DriverGet url) w1
      in case driver url of
           None \<Rightarrow> (Inl (WebDriverException url), w2)
         | Some rows \<Rightarrow>
             (case process_rows rows [] (emit (FindElements base_xpath) w2) of
                (Inl e, w3) \<Rightarrow> (Inl e, w3)
              | (Inr auction_values_list, w3) \<Rightarrow>
                  (if int (length auction_values_list) < YAHOO_RESULTS_PER_PAGE
                   then (Inr auction_values_list,
                         emit (page_warning (int (length auction_values_list)) cnt) w3)
                   else (Inr auction_values_list, w3))))"

section \<open>The csv module: writer of the excel dialect, DictWriter\<close>

text \<open>
  \<open>csv.DictWriter(f, delimiter=',', fieldnames=fields)\<close> keeps the other parameters of the
  excel dialect: quote character \<open>"\<close>, doubled inside a quoted field; minimal quoting (a
  field is quoted when it holds the delimiter, the quote character or a character of the
  line terminator); line terminator CR LF; \<open>restval\<close> the empty string;
  \<open>extrasaction\<close> raise. The file is opened with \<open>newline="\n"\<close>, which writes the text
  untranslated.
\<close>

definition lineterminator :: string where
  "lineterminator = [CR, LF]"

definition needs_quote :: "char \<Rightarrow> bool" where
  "needs_quote c \<longleftrightarrow> c = COMMA \<or> c = DQUOTE \<or> c \<in> set lineterminator"

definition csv_field :: "string \<Rightarrow> string" where
  "csv_field s =
     (if list_ex needs_quote s
      then DQUOTE # concat (map (\<lambda>c. if c = DQUOTE then [DQUOTE, DQUOTE] else [c]) s) @ [DQUOTE]
      else s)"

text \<open>A record of one empty field is written as a pair of quotes.\<close>

definition csv_record :: "string list \<Rightarrow> string" where
  "csv_record row =
     (if row = [[]] then [DQUOTE, DQUOTE] else str_join [COMMA] (map csv_field row))
       @ lineterminator"

definition fopen :: "string \<Rightarrow> world \<Rightarrow> world" where
  "fopen name w = w\<lparr>events := events w @ [FileOpen name], files := (files w)(name \<mapsto> [])\<rparr>"

definition fwrite :: "string \<Rightarrow> string \<Rightarrow> world \<Rightarrow> world" where
  "fwrite name s w =
     w\<lparr>events := events w @ [FileWrite name s],
       files := (files w)(name \<mapsto> (case files w name of None \<Rightarrow> s | Some old \<Rightarrow> old @ s))\<rparr>"

definition fclose :: "string \<Rightarrow> world \<Rightarrow> world" where
  "fclose name w = emit (FileClose name) w"

definition restval :: string where
  "restval = []"

definition dict_to_list :: "dict \<Rightarrow> error + string list" where
  "dict_to_list rowdict =
     (let wrong_fields = filter (\<lambda>k. k \<notin> set fields) (dict_keys rowdict)
      in if wrong_fields \<noteq> []
         then Inl (ValueError ''dict contains fields not in fieldnames'')
         else Inr (map (\<lambda>key. dict_get rowdict key restval) fields))"

definition writerow :: "string \<Rightarrow> dict \<Rightarrow> world \<Rightarrow> (error + unit) \<times> world" where
  "writerow f rowdict w =
     (case dict_to_list rowdict of
        Inl e \<Rightarrow> (Inl e, w)
      | Inr vals \<Rightarrow> (Inr (), fwrite f (csv_record vals) w))"

definition writeheader :: "string \<Rightarrow> world \<Rightarrow> (error + unit) \<times> world" where
  "writeheader f w = writerow f (zip fields fields) w"

section \<open>write\_auction\_draft\_values\<close>

fun writerows :: "string \<Rightarrow> dict list \<Rightarrow> world \<Rightarrow> (error + unit) \<times> world" where
  "writerows f [] w = (Inr (), w)"
| "writerows f (row # rows) w =
     (case writerow f row w of
        (Inl e, w1) \<Rightarrow> (Inl e, w1)
      | (Inr u, w1) \<Rightarrow> writerows f rows w1)"

text \<open>The \<open>with\<close> block closes the file when its body returns and when it raises.\<close>

definition write_auction_draft_values :: "dict list \<Rightarrow> string \<Rightarrow> world \<Rightarrow> (error + unit) \<times> world" where
  "write_auction_draft_values auction_values_list out_filename w =
     (let w1 = emit (Log INFO ''Writing to file %s'' [S out_filename]) w;
          w2 = fopen out_filename w1
      in case writeheader out_filename w2 of
           (Inl e, w3) \<Rightarrow> (Inl e, fclose out_filename w3)
         | (Inr u, w3) \<Rightarrow>
             (case writerows out_filename auction_values_list w3 of
                (Inl e, w4) \<Rightarrow> (Inl e, fclose out_filename w4)
              | (Inr u', w4) \<Rightarrow> (Inr (), fclose out_filename w4)))"

section \<open>get\_auction\_draft\_values\<close>

text \<open>\<open>range(start, stop, step)\<close> for a positive step.\<close>

function range_step :: "int \<Rightarrow> int \<Rightarrow> int \<Rightarrow> int list" where
  "range_step start stop step =
     (if 0 < step \<and> start < stop then start # range_step (start + step) stop step else [])"
  by pat_completeness auto
termination
  by (relation "measure (\<lambda>(start, stop, step). nat (stop - start))") auto

declare range_step.simps [simp del]

fun scrape_pages :: "website \<Rightarrow> int list \<Rightarrow> dict list \<Rightarrow> world \<Rightarrow> (error + dict list) \<times> world" where
  "scrape_pages driver [] auction_values_list w = (Inr auction_values_list, w)"
| "scrape_pages driver (cnt # cnts) auction_values_list w =
     (case process_page driver cnt w of
        (Inl e, w1) \<Rightarrow> (Inl e, w1)
      | (Inr page_stats, w1) \<Rightarrow> scrape_pages driver cnts (auction_values_list @ page_stats) w1)"

definition total_warning :: "int \<Rightarrow> int \<Rightarrow> event" where
  "total_warning n total_players =
     Log WARNING ''Only scraped %d rows @, expected to scrape %d'' [I n, I total_players]"

text \<open>
  The Chrome session created inside the function browses the site given as first argument.
  An exception leaves the function at once; only the normal path reaches \<open>driver.close()\<close>.
\<close>

definition get_auction_draft_values :: "website \<Rightarrow> string \<Rightarrow> int \<Rightarrow> world \<Rightarrow> (error + unit) \<times> world" where
  "get_auction_draft_values site csv_file total_players w =
     (let w1 = emit ChromeStart w;
          w2 = emit (SetPageLoadTimeout 30) w1
      in case scrape_pages site (range_step 0 total_players YAHOO_RESULTS_PER_PAGE) [] w2 of
           (Inl e, w3) \<Rightarrow> (Inl e, w3)
         | (Inr auction_values_list, w3) \<Rightarrow>
             (let w4 = (if int (length auction_values_list) < total_players
                        then emit (total_warning (int (length auction_values_list)) total_players) w3
                        else w3)
              in case write_auction_draft_values auction_values_list csv_file w4 of
                   (Inl e, w5) \<Rightarrow> (Inl e, w5)
                 | (Inr u, w5) \<Rightarrow> (Inr (), emit DriverClose w5)))"

section \<open>Notions used to state the properties\<close>

subsection \<open>What a row yields, what a page yields\<close>

text \<open>The value computed by \<open>process_player\<close>, which does not depend on the world.\<close>

definition player_values :: "web_element \<Rightarrow> error + dict" where
  "player_values player_row =
     (case find_values player_row XPATH_MAP [] of
        Inl e \<Rightarrow> Inl e
      | Inr draft_values \<Rightarrow> split_position draft_values)"

definition debug_event :: "web_element \<Rightarrow> event" where
  "debug_event player_row = Log DEBUG ''%s'' [S (str_replace (elem_text player_row) LF (CHR '' ''))]"

definition row_ok :: "web_element \<Rightarrow> bool" where
  "row_ok player_row = (case player_values player_row of Inl e \<Rightarrow> False | Inr d \<Rightarrow> True)"

definition the_values :: "web_element \<Rightarrow> dict" where
  "the_values player_row = (case player_values player_row of Inl e \<Rightarrow> [] | Inr d \<Rightarrow> d)"

definition page_ok :: "website \<Rightarrow> int \<Rightarrow> bool" where
  "page_ok site cnt =
     (case site (page_url cnt) of None \<Rightarrow> False | Some rows \<Rightarrow> list_all row_ok rows)"

definition site_rows :: "website \<Rightarrow> int \<Rightarrow> web_element list" where
  "site_rows site cnt = (case site (page_url cnt) of None \<Rightarrow> [] | Some rows \<Rightarrow> rows)"

definition page_records :: "website \<Rightarrow> int \<Rightarrow> dict list" where
  "page_records site cnt = map the_values (site_rows site cnt)"

text \<open>The events of processing a page whose rows all yield a record.\<close>

definition page_events :: "int \<Rightarrow> web_element list \<Rightarrow> event list" where
  "page_events cnt rows =
     [Log INFO ''Getting stats for count %d'' [I cnt], DriverGet (page_url cnt),
      FindElements base_xpath]
       @ map debug_event rows
       @ (if int (length rows) < YAHOO_RESULTS_PER_PAGE
          then [page_warning (int (length rows)) cnt] else [])"

definition scrape_events :: "website \<Rightarrow> int list \<Rightarrow> event list" where
  "scrape_events site cnts = concat (map (\<lambda>cnt. page_events cnt (site_rows site cnt)) cnts)"

subsection \<open>Events of a call\<close>

definition new_events :: "world \<Rightarrow> world \<Rightarrow> event list" where
  "new_events w w' = drop (length (events w)) (events w')"

fun is_warning :: "event \<Rightarrow> bool" where
  "is_warning (Log WARNING fmt args) = True"
| "is_warning e = False"

fun is_total_warning :: "event \<Rightarrow> bool" where
  "is_total_warning (Log WARNING fmt args) =
     (fmt = ''Only scraped %d rows @, expected to scrape %d'')"
| "is_total_warning e = False"

fun is_debug :: "event \<Rightarrow> bool" where
  "is_debug (Log DEBUG fmt args) = True"
| "is_debug e = False"

fun is_get :: "event \<Rightarrow> bool" where
  "is_get (DriverGet url) = True"
| "is_get e = False"

fun is_file_event :: "event \<Rightarrow> bool" where
  "is_file_event (FileOpen name) = True"
| "is_file_event (FileWrite name s) = True"
| "is_file_event (FileClose name) = True"
| "is_file_event e = False"

fun is_scrape_event :: "event \<Rightarrow> bool" where
  "is_scrape_event (Log lvl fmt args) = True"
| "is_scrape_event (DriverGet url) = True"
| "is_scrape_event (FindElements xpath) = True"
| "is_scrape_event e = False"

text \<open>The records of all pages of a request, in the order of the offsets.\<close>

definition scraped :: "website \<Rightarrow> int \<Rightarrow> dict list" where
  "scraped site total_players =
     concat (map (page_records site) (range_step 0 total_players YAHOO_RESULTS_PER_PAGE))"

subsection \<open>The text of the CSV file\<close>

definition header_line :: string where
  "header_line = ''Name,Position,Team,Projected Value,Average Cost,Percent Drafted'' @ [CR, LF]"


definition row_values :: "dict \<Rightarrow> string list" where
  "row_values rowdict = map (\<lambda>key. dict_get rowdict key restval) fields"

definition csv_text :: "dict list \<Rightarrow> string" where
  "csv_text records = csv_record fields @ concat (map (\<lambda>r. csv_record (row_values r)) records)"

text \<open>The events of writing the file.\<close>

definition write_events :: "string \<Rightarrow> dict list \<Rightarrow> event list" where
  "write_events name records =
     [Log INFO ''Writing to file %s'' [S name], FileOpen name, FileWrite name (csv_record fields)]
       @ map (\<lambda>r. FileWrite name (csv_record (row_values r))) records
       @ [FileClose name]"

text \<open>
  The lines of a text whose newline is LF, as the file is opened: each line runs up to and
  includes its line feed; text after the last line feed is a last line.
\<close>

fun lines_from :: "string \<Rightarrow> string \<Rightarrow> string list" where
  "lines_from cur [] = (if cur = [] then [] else [cur])"
| "lines_from cur (c # cs) =
     (if c = LF then (cur @ [c]) # lines_from [] cs else lines_from (cur @ [c]) cs)"

definition readlines :: "string \<Rightarrow> string list" where
  "readlines s = lines_from [] s"

subsection \<open>Reading the file back\<close>

text \<open>
  A reader for the excel dialect, as a state machine over the characters of the text, in
  the manner of the csv module's reader: a quoted field runs to its closing quote, a
  doubled quote inside it is one quote, and a CR or LF outside quotes ends the record.
  Empty lines yield no record. The state holds the field and the record being read and the
  records read so far.
\<close>

datatype rstate = StartRecord | StartField | InField | InQuotedField | QuoteInQuotedField

type_synonym reader = "rstate \<times> string \<times> string list \<times> string list list"

definition start_field :: "string list \<Rightarrow> string list list \<Rightarrow> char \<Rightarrow> reader" where
  "start_field row rows c =
     (if c = DQUOTE then (InQuotedField, [], row, rows)
      else if c = COMMA then (StartField, [], row @ [[]], rows)
      else if c = CR \<or> c = LF then (StartRecord, [], [], rows @ [row @ [[]]])
      else (InField, [c], row, rows))"

fun parse_char :: "reader \<Rightarrow> char \<Rightarrow> reader" where
  "parse_char (StartRecord, fld, row, rows) c =
     (if c = CR \<or> c = LF then (StartRecord, [], [], rows) else start_field [] rows c)"
| "parse_char (StartField, fld, row, rows) c = start_field row rows c"
| "parse_char (InField, fld, row, rows) c =
     (if c = COMMA then (StartField, [], row @ [fld], rows)
      else if c = CR \<or> c = LF then (StartRecord, [], [], rows @ [row @ [fld]])
      else (InField, fld @ [c], row, rows))"
| "parse_char (InQuotedField, fld, row, rows) c =
     (if c = DQUOTE then (QuoteInQuotedField, fld, row, rows)
      else (InQuotedField, fld @ [c], row, rows))"
| "parse_char (QuoteInQuotedField, fld, row, rows) c =
     (if c = DQUOTE then (InQuotedField, fld @ [DQUOTE], row, rows)
      else if c = COMMA then (StartField, [], row @ [fld], rows)
      else if c = CR \<or> c = LF then (StartRecord, [], [], rows @ [row @ [fld]])
      else (InField, fld @ [c], row, rows))"

fun parse_end :: "reader \<Rightarrow> string list list option" where
  "parse_end (StartRecord, fld, row, rows) = Some rows"
| "parse_end (StartField, fld, row, rows) = Some (rows @ [row @ [[]]])"
| "parse_end (InField, fld, row, rows) = Some (rows @ [row @ [fld]])"
| "parse_end (InQuotedField, fld, row, rows) = None"
| "parse_end (QuoteInQuotedField, fld, row, rows) = Some (rows @ [row @ [fld]])"

definition csv_reader :: "string \<Rightarrow> string list list option" where
  "csv_reader s = parse_end (foldl parse_char (StartRecord, [], [], []) s)"

text \<open>The first record names the columns; every later record becomes a dictionary.\<close>

definition DictReader :: "string \<Rightarrow> dict list option" where
  "DictReader s =
     (case csv_reader s of
        None \<Rightarrow> None
      | Some [] \<Rightarrow> Some []
      | Some (fieldnames # rows) \<Rightarrow> Some (map (zip fieldnames) rows))"

subsection \<open>Example inputs\<close>

definition world0 :: world where
  "world0 = \<lparr>events = [], files = (\<lambda>name. None)\<rparr>"

definition player_row :: "string \<Rightarrow> string \<Rightarrow> string \<Rightarrow> string \<Rightarrow> string \<Rightarrow> web_element" where
  "player_row name combined pv ac pd =
     \<lparr>elem_text = name @ [LF] @ combined @ [LF] @ pv @ [LF] @ ac @ [LF] @ pd,
      inner_html = map_of
        [(''td[1]/div/div[1]/div/a'', name), (''td[1]/div/div[1]/div/span'', combined),
         (''td[2]/div'', pv), (''td[3]/div'', ac), (''td[4]/div'', pd)]\<rparr>"

definition kelce :: web_element where
  "kelce = player_row ''Travis Kelce'' ''KC - TE'' ''$45'' ''$47.1'' ''100%''"

definition kelce_record :: dict where
  "kelce_record =
     [(''Name'', ''Travis Kelce''), (''Position'', ''TE''), (''Projected Value'', ''$45''),
      (''Average Cost'', ''$47.1''), (''Percent Drafted'', ''100%''), (''Team'', ''KC'')]"

definition no_team :: web_element where
  "no_team = player_row ''Free Agent'' ''QB'' ''$1'' ''$1.0'' ''2%''"

definition mahomes :: web_element where
  "mahomes = player_row ''Patrick Mahomes'' ''KC - QB'' ''$30'' ''$28.5'' ''99%''"

definition two_page_site :: website where
  "two_page_site =
     (\<lambda>url. if url = page_url 0 then Some [kelce]
            else if url = page_url 50 then Some [mahomes] else None)"

definition mahomes_record :: dict where
  "mahomes_record =
     [(''Name'', ''Patrick Mahomes''), (''Position'', ''QB''), (''Projected Value'', ''$30''),
      (''Average Cost'', ''$28.5''), (''Percent Drafted'', ''99%''), (''Team'', ''KC'')]"

definition multiline_row :: web_element where
  "multiline_row = player_row (''Travis'' @ [LF] @ ''Kelce'') ''KC - TE'' ''$45'' ''$47.1'' ''100%''"

definition multiline_record :: dict where
  "multiline_record =
     [(''Name'', ''Travis'' @ [LF] @ ''Kelce''), (''Position'', ''TE''),
      (''Projected Value'', ''$45''), (''Average Cost'', ''$47.1''),
      (''Percent Drafted'', ''100%''), (''Team'', ''KC'')]"

definition quoted_record :: dict where
  "quoted_record =
     [(''Name'', ''Smith, '' @ [DQUOTE] @ ''Jr'' @ [DQUOTE, CR, LF] @ ''II''), (''Position'', []),
      (''Projected Value'', ''$1,000''), (''Average Cost'', [DQUOTE]),
      (''Percent Drafted'', ''0%''), (''Team'', [LF])]"

definition one_page_site :: "web_element list \<Rightarrow> website" where
  "one_page_site rows = (\<lambda>url. if url = page_url 0 then Some rows else None)"

section \<open>Splitting the combined cell\<close>

lemma occurrences_append_ge: "occurrences sep s \<le> occurrences sep (t @ s)"
  by (induction t) auto

lemma occurrences_sep_ge1: "sep \<noteq> [] \<Longrightarrow> 1 \<le> occurrences sep (sep @ p)"
  by (cases sep) auto

lemma split_from_no_occurrence:
  "occurrences sep s = 0 \<Longrightarrow> split_from sep cur s = [cur @ s]"
  by (induction s arbitrary: cur) (auto split: if_splits)

lemma split_from_single:
  assumes "sep \<noteq> []" "occurrences sep (t @ sep @ p) = 1"
  shows "split_from sep cur (t @ sep @ p) = [cur @ t, p]"
  using assms(2)
proof (induction t arbitrary: cur)
  case Nil
  obtain c cs where sep: "sep = c # cs" using assms(1) by (cases sep) auto
  from Nil have "occurrences sep (cs @ p) = 0" by (simp add: sep)
  moreover have "occurrences sep p \<le> occurrences sep (cs @ p)" by (rule occurrences_append_ge)
  ultimately have "occurrences sep p = 0" by simp
  then have "split_from sep [] p = [p]" using split_from_no_occurrence[of sep p "[]"] by simp
  then show ?case by (simp add: sep)
next
  case (Cons a t)
  have "1 \<le> occurrences sep (sep @ p)" using assms(1) by (rule occurrences_sep_ge1)
  also have "\<dots> \<le> occurrences sep (t @ sep @ p)" by (rule occurrences_append_ge)
  finally have ge: "1 \<le> occurrences sep (t @ sep @ p)" .
  with Cons.prems have np: "\<not> prefix sep (a # t @ sep @ p)"
    and one: "occurrences sep (t @ sep @ p) = 1"
    by (auto split: if_splits)
  from Cons.IH[OF one, of "cur @ [a]"] np show ?case by simp
qed

lemma find_values_XPATH_MAP:
  assumes "inner_html row ''td[1]/div/div[1]/div/a'' = Some name"
    and "inner_html row ''td[1]/div/div[1]/div/span'' = Some cell"
    and "inner_html row ''td[2]/div'' = Some pv"
    and "inner_html row ''td[3]/div'' = Some ac"
    and "inner_html row ''td[4]/div'' = Some pd"
  shows "find_values row XPATH_MAP [] =
     Inr [(''Name'', name), (''Position'', cell), (''Projected Value'', pv),
          (''Average Cost'', ac), (''Percent Drafted'', pd)]"
  using assms by (simp add: XPATH_MAP_def dict_setitem_def dict_keys_def)

text \<open>
  C1. A row whose five cells are found and whose combined cell is \<open>team @ " - " @ pos\<close>, the
  delimiter occurring exactly once in it, yields the record with Team \<open>team\<close>, Position
  \<open>pos\<close> and the other three cells unchanged.
\<close>

theorem process_player_splits:
  assumes "inner_html row ''td[1]/div/div[1]/div/a'' = Some name"
    and "inner_html row ''td[1]/div/div[1]/div/span'' = Some cell"
    and "inner_html row ''td[2]/div'' = Some pv"
    and "inner_html row ''td[3]/div'' = Some ac"
    and "inner_html row ''td[4]/div'' = Some pd"
    and "cell = team @ '' - '' @ pos"
    and "occurrences '' - '' cell = 1"
  shows "fst (process_player row w) =
     Inr [(''Name'', name), (''Position'', pos), (''Projected Value'', pv),
          (''Average Cost'', ac), (''Percent Drafted'', pd), (''Team'', team)]"
proof -
  have "split_from '' - '' [] cell = [team, pos]"
    using split_from_single[of "'' - ''" team pos "[]"] assms(6,7) by simp
  then show ?thesis
    using find_values_XPATH_MAP[OF assms(1-5)]
    by (simp add: process_player_def split_position_def dict_getitem_def str_split_def
        dict_setitem_def dict_keys_def Let_def)
qed

theorem process_player_splits_witness:
  "inner_html kelce ''td[1]/div/div[1]/div/a'' = Some ''Travis Kelce''
   \<and> inner_html kelce ''td[1]/div/div[1]/div/span'' = Some ''KC - TE''
   \<and> inner_html kelce ''td[2]/div'' = Some ''$45''
   \<and> inner_html kelce ''td[3]/div'' = Some ''$47.1''
   \<and> inner_html kelce ''td[4]/div'' = Some ''100%''
   \<and> ''KC - TE'' = ''KC'' @ '' - '' @ ''TE''
   \<and> occurrences '' - '' ''KC - TE'' = 1
   \<and> fst (process_player kelce world0) =
       Inr [(''Name'', ''Travis Kelce''), (''Position'', ''TE''), (''Projected Value'', ''$45''),
            (''Average Cost'', ''$47.1''), (''Percent Drafted'', ''100%''), (''Team'', ''KC'')]"
proof -
  have h1: "inner_html kelce ''td[1]/div/div[1]/div/a'' = Some ''Travis Kelce''"
    and h2: "inner_html kelce ''td[1]/div/div[1]/div/span'' = Some ''KC - TE''"
    and h3: "inner_html kelce ''td[2]/div'' = Some ''$45''"
    and h4: "inner_html kelce ''td[3]/div'' = Some ''$47.1''"
    and h5: "inner_html kelce ''td[4]/div'' = Some ''100%''"
    by (simp_all add: kelce_def player_row_def)
  have h6: "''KC - TE'' = ''KC'' @ '' - '' @ ''TE''" by simp
  have h7: "occurrences '' - '' ''KC - TE'' = 1" by simp
  from process_player_splits[OF h1 h2 h3 h4 h5 h6 h7, of world0] h1 h2 h3 h4 h5 h6 h7
  show ?thesis by blast
qed

section \<open>The events and the result of processing rows and pages\<close>

lemma process_player_eq:
  "process_player row w = (player_values row, emit (debug_event row) w)"
  by (simp add: process_player_def player_values_def debug_event_def Let_def split: sum.splits)

lemma process_rows_ok:
  "list_all row_ok rows \<Longrightarrow>
   process_rows rows acc w =
     (Inr (acc @ map the_values rows), w\<lparr>events := events w @ map debug_event rows\<rparr>)"
proof (induction rows arbitrary: acc w)
  case Nil
  then show ?case by simp
next
  case (Cons row rows)
  from Cons.prems obtain d where d: "player_values row = Inr d"
    by (auto simp: row_ok_def split: sum.splits)
  from Cons.prems have rest: "list_all row_ok rows" by simp
  show ?case
    by (simp add: process_player_eq d Cons.IH[OF rest] the_values_def emit_def)
qed

text \<open>A row that raises ends the loop: the rows after it are never passed on.\<close>

lemma process_rows_bad:
  "\<not> row_ok row \<Longrightarrow>
   \<exists>k e. k \<le> length pre \<and>
     process_rows (pre @ row # post) acc w =
       (Inl e, w\<lparr>events := events w @ map debug_event (take (Suc k) (pre @ row # post))\<rparr>)"
proof (induction pre arbitrary: acc w)
  case Nil
  then obtain e where "player_values row = Inl e"
    by (auto simp: row_ok_def split: sum.splits)
  then show ?case by (simp add: process_player_eq emit_def)
next
  case (Cons a pre)
  show ?case
  proof (cases "player_values a")
    case (Inl e)
    then have "process_rows ((a # pre) @ row # post) acc w =
       (Inl e, w\<lparr>events := events w @ map debug_event (take (Suc 0) ((a # pre) @ row # post))\<rparr>)"
      by (simp add: process_player_eq emit_def)
    then show ?thesis by blast
  next
    case (Inr d)
    from Cons.IH[OF Cons.prems, of "acc @ [d]" "emit (debug_event a) w"]
    obtain k e where k: "k \<le> length pre"
      and eq: "process_rows (pre @ row # post) (acc @ [d]) (emit (debug_event a) w) =
        (Inl e, (emit (debug_event a) w)\<lparr>events := events (emit (debug_event a) w)
            @ map debug_event (take (Suc k) (pre @ row # post))\<rparr>)"
      by blast
    have "process_rows ((a # pre) @ row # post) acc w =
       (Inl e, w\<lparr>events := events w
          @ map debug_event (take (Suc (Suc k)) ((a # pre) @ row # post))\<rparr>)"
      using eq by (simp add: process_player_eq Inr emit_def)
    moreover have "Suc k \<le> length (a # pre)" using k by simp
    ultimately show ?thesis by blast
  qed
qed

lemma process_page_ok:
  assumes "driver (page_url cnt) = Some rows" "list_all row_ok rows"
  shows "process_page driver cnt w =
     (Inr (map the_values rows), w\<lparr>events := events w @ page_events cnt rows\<rparr>)"
  using assms
  by (simp add: process_page_def Let_def process_rows_ok page_events_def emit_def)

lemma process_page_bad:
  assumes "driver (page_url cnt) = Some (pre @ row # post)" "\<not> row_ok row"
  shows "\<exists>k e. k \<le> length pre \<and> process_page driver cnt w =
     (Inl e, w\<lparr>events := events w @
        [Log INFO ''Getting stats for count %d'' [I cnt], DriverGet (page_url cnt),
         FindElements base_xpath] @ map debug_event (take (Suc k) (pre @ row # post))\<rparr>)"
proof -
  define w3 where "w3 = emit (FindElements base_xpath) (emit (DriverGet (page_url cnt))
         (emit (Log INFO ''Getting stats for count %d'' [I cnt]) w))"
  from process_rows_bad[OF assms(2), of pre post "[]" w3]
  obtain k e where k: "k \<le> length pre"
    and eq: "process_rows (pre @ row # post) [] w3 =
       (Inl e, w3\<lparr>events := events w3 @ map debug_event (take (Suc k) (pre @ row # post))\<rparr>)"
    by blast
  have "process_page driver cnt w =
     (Inl e, w\<lparr>events := events w @
        [Log INFO ''Getting stats for count %d'' [I cnt], DriverGet (page_url cnt),
         FindElements base_xpath] @ map debug_event (take (Suc k) (pre @ row # post))\<rparr>)"
    using assms(1) eq by (simp add: process_page_def Let_def emit_def w3_def)
  with k show ?thesis by blast
qed

section \<open>The keys of the scraped records\<close>


lemma new_events_append [simp]: "new_events w (w\<lparr>events := events w @ es\<rparr>) = es"
  by (simp add: new_events_def)

lemma dict_keys_setitem:
  "dict_keys (dict_setitem d k v) = (if k \<in> set (dict_keys d) then dict_keys d else dict_keys d @ [k])"
  by (auto simp: dict_setitem_def dict_keys_def split: prod.splits)

lemma find_values_Inr:
  assumes "find_values row XPATH_MAP [] = Inr d"
  shows "\<exists>name cell pv ac pd.
     inner_html row ''td[1]/div/div[1]/div/a'' = Some name
     \<and> inner_html row ''td[1]/div/div[1]/div/span'' = Some cell
     \<and> inner_html row ''td[2]/div'' = Some pv
     \<and> inner_html row ''td[3]/div'' = Some ac
     \<and> inner_html row ''td[4]/div'' = Some pd
     \<and> d = [(''Name'', name), (''Position'', cell), (''Projected Value'', pv),
          (''Average Cost'', ac), (''Percent Drafted'', pd)]"
  using assms
  by (auto simp: XPATH_MAP_def dict_setitem_def dict_keys_def split: option.splits)

lemma player_values_keys:
  assumes "player_values row = Inr r"
  shows "dict_keys r = [''Name'', ''Position'', ''Projected Value'', ''Average Cost'',
           ''Percent Drafted'', ''Team'']"
proof -
  from assms obtain d where d: "find_values row XPATH_MAP [] = Inr d"
    and sp: "split_position d = Inr r"
    by (auto simp: player_values_def split: sum.splits)
  from find_values_Inr[OF d] have keys: "dict_keys d = [''Name'', ''Position'', ''Projected Value'', ''Average Cost'',
           ''Percent Drafted'']" by (auto simp: dict_keys_def)
  from sp obtain team position where
    "r = dict_setitem (dict_setitem d ''Position'' position) ''Team'' team"
    by (auto simp: split_position_def split: sum.splits prod.splits)
  then show ?thesis by (simp add: dict_keys_setitem keys)
qed

lemma process_rows_Inr:
  "fst (process_rows rows acc w) = Inr rs \<Longrightarrow> list_all row_ok rows"
proof (induction rows arbitrary: acc w)
  case Nil
  then show ?case by simp
next
  case (Cons row rows)
  then show ?case
    by (cases "player_values row") (auto simp: process_player_eq row_ok_def)
qed

lemma process_page_Inr:
  assumes "fst (process_page driver cnt w) = Inr rs"
  shows "page_ok driver cnt \<and> rs = page_records driver cnt"
proof -
  from assms obtain rows where rows: "driver (page_url cnt) = Some rows"
    by (auto simp: process_page_def Let_def split: option.splits)
  define w3 where "w3 = emit (FindElements base_xpath) (emit (DriverGet (page_url cnt))
         (emit (Log INFO ''Getting stats for count %d'' [I cnt]) w))"
  from assms rows obtain rs' where "fst (process_rows rows [] w3) = Inr rs'"
    by (auto simp: process_page_def Let_def w3_def split: prod.splits sum.splits if_splits)
  then have ok: "list_all row_ok rows" by (rule process_rows_Inr)
  from assms process_page_ok[of driver cnt rows w, OF rows ok] have "rs = map the_values rows" by simp
  with ok rows show ?thesis by (simp add: page_ok_def page_records_def site_rows_def)
qed

lemma page_ok_process_page:
  assumes "page_ok driver cnt"
  shows "process_page driver cnt w =
     (Inr (page_records driver cnt),
      w\<lparr>events := events w @ page_events cnt (site_rows driver cnt)\<rparr>)"
proof -
  from assms obtain rows where "driver (page_url cnt) = Some rows" "list_all row_ok rows"
    by (auto simp: page_ok_def split: option.splits)
  then show ?thesis
    using process_page_ok[of driver cnt rows w] by (simp add: page_records_def site_rows_def)
qed

lemma scrape_pages_ok:
  "\<forall>cnt\<in>set cnts. page_ok driver cnt \<Longrightarrow>
   scrape_pages driver cnts acc w =
     (Inr (acc @ concat (map (page_records driver) cnts)),
      w\<lparr>events := events w @ scrape_events driver cnts\<rparr>)"
proof (induction cnts arbitrary: acc w)
  case Nil
  then show ?case by (simp add: scrape_events_def)
next
  case (Cons cnt cnts)
  then show ?case
    by (simp add: page_ok_process_page scrape_events_def)
qed

lemma scrape_pages_Inr:
  "fst (scrape_pages driver cnts acc w) = Inr rs \<Longrightarrow> \<forall>cnt\<in>set cnts. page_ok driver cnt"
proof (induction cnts arbitrary: acc w)
  case Nil
  then show ?case by simp
next
  case (Cons cnt cnts)
  show ?case
  proof (cases "fst (process_page driver cnt w)")
    case (Inl e)
    with Cons.prems show ?thesis by (auto split: prod.splits)
  next
    case (Inr ps)
    from process_page_Inr[OF Inr] have ok: "page_ok driver cnt" by simp
    from Cons.prems have "fst (scrape_pages driver cnts (acc @ page_records driver cnt)
        (w\<lparr>events := events w @ page_events cnt (site_rows driver cnt)\<rparr>)) = Inr rs"
      by (simp add: page_ok_process_page[OF ok])
    from Cons.IH[OF this] ok show ?thesis by simp
  qed
qed

lemma page_records_keys:
  assumes "page_ok driver cnt" "r \<in> set (page_records driver cnt)"
  shows "dict_keys r = [''Name'', ''Position'', ''Projected Value'', ''Average Cost'',
           ''Percent Drafted'', ''Team'']"
proof -
  from assms obtain row where "row_ok row" "r = the_values row"
    by (auto simp: page_ok_def page_records_def site_rows_def list_all_iff split: option.splits)
  then have "player_values row = Inr r"
    by (auto simp: row_ok_def the_values_def split: sum.splits)
  then show ?thesis by (rule player_values_keys)
qed

text \<open>
  C10. Every record that \<open>process_player\<close> returns has the keys Name, Position, Projected
  Value, Average Cost, Percent Drafted and Team, each once: the set of the CSV field names. So
  has every record of the list a page returns and of the list accumulated over the pages.
\<close>

theorem record_keys:
  "(fst (process_player row w) = Inr r \<longrightarrow>
      dict_keys r = [''Name'', ''Position'', ''Projected Value'', ''Average Cost'',
                     ''Percent Drafted'', ''Team'']
      \<and> set (dict_keys r) = set fields \<and> length (dict_keys r) = length fields)
   \<and> (fst (process_page driver cnt w) = Inr rs \<longrightarrow>
        (\<forall>r'\<in>set rs. set (dict_keys r') = set fields \<and> distinct (dict_keys r')))
   \<and> (fst (scrape_pages driver cnts [] w) = Inr all \<longrightarrow>
        (\<forall>r'\<in>set all. set (dict_keys r') = set fields \<and> distinct (dict_keys r')))"
proof (intro conjI impI)
  assume a: "fst (process_player row w) = Inr r"
  then have pv: "player_values row = Inr r" by (simp add: process_player_eq)
  from player_values_keys[OF pv]
  show "dict_keys r = [''Name'', ''Position'', ''Projected Value'', ''Average Cost'',
                     ''Percent Drafted'', ''Team'']" .
  then show "set (dict_keys r) = set fields" by (auto simp: fields_def)
  from player_values_keys[OF pv] show "length (dict_keys r) = length fields"
    by (simp add: fields_def)
next
  assume "fst (process_page driver cnt w) = Inr rs"
  from process_page_Inr[OF this] have ok: "page_ok driver cnt" and rs: "rs = page_records driver cnt"
    by simp_all
  show "\<forall>r'\<in>set rs. set (dict_keys r') = set fields \<and> distinct (dict_keys r')"
  proof
    fix r' assume "r' \<in> set rs"
    with rs page_records_keys[OF ok, of r'] show "set (dict_keys r') = set fields \<and> distinct (dict_keys r')"
      by (auto simp: fields_def)
  qed
next
  assume a: "fst (scrape_pages driver cnts [] w) = Inr all"
  from scrape_pages_Inr[OF a] have ok: "\<forall>cnt\<in>set cnts. page_ok driver cnt" .
  from a scrape_pages_ok[OF ok, of "[]" w] have all: "all = concat (map (page_records driver) cnts)"
    by simp
  show "\<forall>r'\<in>set all. set (dict_keys r') = set fields \<and> distinct (dict_keys r')"
  proof
    fix r' assume "r' \<in> set all"
    with all obtain cnt where "cnt \<in> set cnts" "r' \<in> set (page_records driver cnt)" by auto
    with ok page_records_keys[of driver cnt r'] show "set (dict_keys r') = set fields \<and> distinct (dict_keys r')"
      by (auto simp: fields_def)
  qed
qed

theorem record_keys_witness:
  "fst (process_player kelce world0) = Inr kelce_record
   \<and> set (dict_keys kelce_record) = set fields
   \<and> length (dict_keys kelce_record) = length fields
   \<and> fst (process_page (one_page_site [kelce]) 0 world0) = Inr [kelce_record]
   \<and> fst (scrape_pages (one_page_site [kelce]) [0] [] world0) = Inr [kelce_record]
   \<and> distinct (dict_keys kelce_record)"
proof -
  have h1: "fst (process_player kelce world0) = Inr kelce_record" by code_simp
  have h2: "fst (process_page (one_page_site [kelce]) 0 world0) = Inr [kelce_record]"
    by code_simp
  have h3: "fst (scrape_pages (one_page_site [kelce]) [0] [] world0) = Inr [kelce_record]"
    by code_simp
  note keys = record_keys[of kelce world0 kelce_record "one_page_site [kelce]" 0
      "[kelce_record]" "[0]" "[kelce_record]"]
  from keys h1 have a: "set (dict_keys kelce_record) = set fields"
    and b: "length (dict_keys kelce_record) = length fields" by blast+
  from keys h2 have "\<forall>r'\<in>set [kelce_record]. distinct (dict_keys r')" by blast
  then have c: "distinct (dict_keys kelce_record)" by simp
  from h1 h2 h3 a b c show ?thesis by blast
qed

section \<open>Rows that raise, pages that come up short\<close>

lemma unpack2_error: "length parts \<noteq> 2 \<Longrightarrow> \<exists>msg. unpack2 parts = Inl (ValueError msg)"
  by (cases parts rule: unpack2.cases) auto

lemma malformed_not_ok:
  assumes "inner_html row ''td[1]/div/div[1]/div/span'' = Some cell"
    and "length (split_from '' - '' [] cell) \<noteq> 2"
  shows "\<not> row_ok row"
proof (cases "find_values row XPATH_MAP []")
  case (Inl e)
  then show ?thesis by (simp add: row_ok_def player_values_def)
next
  case (Inr d)
  from find_values_Inr[OF Inr] assms(1) have "map_of d ''Position'' = Some cell" by auto
  moreover from unpack2_error[OF assms(2)] obtain msg where
    "unpack2 (split_from '' - '' [] cell) = Inl (ValueError msg)" by blast
  ultimately have "split_position d = Inl (ValueError msg)"
    by (simp add: split_position_def dict_getitem_def str_split_def)
  then show ?thesis by (simp add: row_ok_def player_values_def Inr)
qed

lemma malformed_ValueError:
  assumes "inner_html row ''td[1]/div/div[1]/div/a'' = Some name"
    and "inner_html row ''td[1]/div/div[1]/div/span'' = Some cell"
    and "inner_html row ''td[2]/div'' = Some pv"
    and "inner_html row ''td[3]/div'' = Some ac"
    and "inner_html row ''td[4]/div'' = Some pd"
    and "length (split_from '' - '' [] cell) \<noteq> 2"
  shows "\<exists>msg. player_values row = Inl (ValueError msg)"
proof -
  from unpack2_error[OF assms(6)] obtain msg where
    "unpack2 (split_from '' - '' [] cell) = Inl (ValueError msg)" by blast
  then have "player_values row = Inl (ValueError msg)"
    using find_values_XPATH_MAP[OF assms(1-5)]
    by (simp add: player_values_def split_position_def dict_getitem_def str_split_def)
  then show ?thesis by blast
qed

lemma filter_debug_events [simp]: "filter is_debug (map debug_event rows) = map debug_event rows"
  by (induction rows) (auto simp: debug_event_def)

lemma filter_warning_debug [simp]: "filter is_warning (map debug_event rows) = []"
  by (induction rows) (auto simp: debug_event_def)

text \<open>The parts of a split are one more than the occurrences of the separator it met.\<close>

lemma split_from_count: "length (split_from sep cur s) = Suc (count_from sep s)"
  by (induction sep cur s rule: split_from.induct) auto

text \<open>
  C6. A row whose combined cell does not split on \<open>" - "\<close> into exactly two parts makes
  \<open>process_player\<close> raise (a ValueError of the unpacking, when the other four cells are
  found); \<open>process_page\<close> raises with it and returns no list, and only rows up to that row
  were passed to \<open>process_player\<close>: none of the rows after it. The split has two parts
  exactly when its scan meets the delimiter once.
\<close>

theorem malformed_position_raises:
  assumes "inner_html row ''td[1]/div/div[1]/div/span'' = Some cell"
    and "str_split cell '' - '' = Inr parts"
    and "length parts \<noteq> 2"
    and "driver (page_url cnt) = Some (pre @ row # post)"
  shows "count_from '' - '' cell \<noteq> 1
    \<and> isl (fst (process_player row w))
    \<and> (inner_html row ''td[1]/div/div[1]/div/a'' \<noteq> None \<and> inner_html row ''td[2]/div'' \<noteq> None
        \<and> inner_html row ''td[3]/div'' \<noteq> None \<and> inner_html row ''td[4]/div'' \<noteq> None
        \<longrightarrow> (\<exists>msg. fst (process_player row w) = Inl (ValueError msg)))
    \<and> isl (fst (process_page driver cnt w))
    \<and> (\<exists>k\<le>length pre.
          filter is_debug (new_events w (snd (process_page driver cnt w))) =
            map debug_event (take (Suc k) (pre @ row # post)))"
proof -
  from assms(2,3) have len: "length (split_from '' - '' [] cell) \<noteq> 2"
    by (auto simp: str_split_def)
  have bad: "\<not> row_ok row" using assms(1) len by (rule malformed_not_ok)
  then have 1: "isl (fst (process_player row w))"
    by (auto simp: process_player_eq row_ok_def split: sum.splits)
  have 2: "inner_html row ''td[1]/div/div[1]/div/a'' \<noteq> None \<and> inner_html row ''td[2]/div'' \<noteq> None
        \<and> inner_html row ''td[3]/div'' \<noteq> None \<and> inner_html row ''td[4]/div'' \<noteq> None
        \<longrightarrow> (\<exists>msg. fst (process_player row w) = Inl (ValueError msg))"
    using malformed_ValueError[of row _ cell _ _ _, OF _ assms(1) _ _ _ len]
    by (auto simp: process_player_eq)
  from process_page_bad[of driver cnt pre row post w, OF assms(4) bad] obtain k e where k: "k \<le> length pre"
    and eq: "process_page driver cnt w =
     (Inl e, w\<lparr>events := events w @
        [Log INFO ''Getting stats for count %d'' [I cnt], DriverGet (page_url cnt),
         FindElements base_xpath] @ map debug_event (take (Suc k) (pre @ row # post))\<rparr>)"
    by blast
  have 3: "isl (fst (process_page driver cnt w))" by (simp add: eq)
  have "filter is_debug (new_events w (snd (process_page driver cnt w))) =
            map debug_event (take (Suc k) (pre @ row # post))"
    by (simp add: eq)
  with k have 4: "\<exists>k\<le>length pre.
          filter is_debug (new_events w (snd (process_page driver cnt w))) =
            map debug_event (take (Suc k) (pre @ row # post))" by blast
  from len have 0: "count_from '' - '' cell \<noteq> 1"
    by (simp add: split_from_count)
  from 0 1 2 3 4 show ?thesis by blast
qed

theorem malformed_position_raises_witness:
  "inner_html no_team ''td[1]/div/div[1]/div/span'' = Some ''QB''
   \<and> str_split ''QB'' '' - '' = Inr [''QB'']
   \<and> length [''QB''] \<noteq> 2
   \<and> one_page_site [kelce, no_team, mahomes] (page_url 0) = Some ([kelce] @ no_team # [mahomes])
   \<and> isl (fst (process_player no_team world0))
   \<and> isl (fst (process_page (one_page_site [kelce, no_team, mahomes]) 0 world0))
   \<and> (\<exists>k\<le>length [kelce].
        filter is_debug (new_events world0
            (snd (process_page (one_page_site [kelce, no_team, mahomes]) 0 world0))) =
          map debug_event (take (Suc k) ([kelce] @ no_team # [mahomes])))"
proof -
  have h1: "inner_html no_team ''td[1]/div/div[1]/div/span'' = Some ''QB''"
    by (simp add: no_team_def player_row_def)
  have h2: "str_split ''QB'' '' - '' = Inr [''QB'']" by (simp add: str_split_def)
  have h3: "length [''QB''] \<noteq> 2" by simp
  have h4: "one_page_site [kelce, no_team, mahomes] (page_url 0)
              = Some ([kelce] @ no_team # [mahomes])"
    by (simp add: one_page_site_def)
  from malformed_position_raises[of no_team "''QB''" "[''QB'']"
      "one_page_site [kelce, no_team, mahomes]" 0 "[kelce]" "[mahomes]" world0, OF h1 h2 h3 h4]
    h1 h2 h3 h4
  show ?thesis by blast
qed

text \<open>
  C3. When the page loads and every row yields a record, \<open>process_page\<close> returns the
  records of all rows; it logs one warning if they are fewer than 50 and no warning otherwise.
\<close>

theorem short_page_warns:
  assumes "driver (page_url cnt) = Some rows" and "list_all row_ok rows"
  shows "fst (process_page driver cnt w) = Inr (map the_values rows)
    \<and> length (map the_values rows) = length rows
    \<and> filter is_warning (new_events w (snd (process_page driver cnt w))) =
        (if length rows < 50 then [page_warning (int (length rows)) cnt] else [])"
  using process_page_ok[of driver cnt rows w, OF assms]
  by (simp add: page_events_def YAHOO_RESULTS_PER_PAGE_def page_warning_def)

theorem short_page_warns_witness:
  "one_page_site [kelce] (page_url 0) = Some [kelce]
   \<and> list_all row_ok [kelce]
   \<and> fst (process_page (one_page_site [kelce]) 0 world0) = Inr [kelce_record]
   \<and> filter is_warning (new_events world0 (snd (process_page (one_page_site [kelce]) 0 world0)))
       = [page_warning 1 0]
   \<and> one_page_site (replicate 50 kelce) (page_url 0) = Some (replicate 50 kelce)
   \<and> list_all row_ok (replicate 50 kelce)
   \<and> fst (process_page (one_page_site (replicate 50 kelce)) 0 world0)
       = Inr (replicate 50 kelce_record)
   \<and> filter is_warning
        (new_events world0 (snd (process_page (one_page_site (replicate 50 kelce)) 0 world0)))
       = []"
proof -
  have h1: "one_page_site [kelce] (page_url 0) = Some [kelce]"
    by (simp add: one_page_site_def)
  have h2: "list_all row_ok [kelce]" by code_simp
  have v: "the_values kelce = kelce_record" by code_simp
  have g1: "one_page_site (replicate 50 kelce) (page_url 0) = Some (replicate 50 kelce)"
    by (simp add: one_page_site_def)
  have g2: "list_all row_ok (replicate 50 kelce)" by code_simp
  from short_page_warns[of "one_page_site [kelce]" 0 "[kelce]" world0, OF h1 h2]
    short_page_warns[of "one_page_site (replicate 50 kelce)" 0 "replicate 50 kelce" world0,
      OF g1 g2]
    h1 h2 g1 g2 v
  show ?thesis by simp
qed

section \<open>Writing the file\<close>

lemma dict_to_list_ok:
  "set (dict_keys r) \<subseteq> set fields \<Longrightarrow> dict_to_list r = Inr (row_values r)"
  by (auto simp: dict_to_list_def row_values_def Let_def filter_empty_conv)

lemma writerow_ok:
  "set (dict_keys r) \<subseteq> set fields \<Longrightarrow>
   writerow f r w = (Inr (), fwrite f (csv_record (row_values r)) w)"
  by (simp add: writerow_def dict_to_list_ok)

lemma emit_simps [simp]:
  "events (emit e w) = events w @ [e]" "files (emit e w) x = files w x"
  by (simp_all add: emit_def)

lemma fopen_simps [simp]:
  "events (fopen name w) = events w @ [FileOpen name]"
  "files (fopen name w) x = (if x = name then Some [] else files w x)"
  by (simp_all add: fopen_def)

lemma fwrite_simps [simp]:
  "events (fwrite name s w) = events w @ [FileWrite name s]"
  "files (fwrite name s w) x =
     (if x = name then Some (case files w name of None \<Rightarrow> s | Some old \<Rightarrow> old @ s)
      else files w x)"
  by (simp_all add: fwrite_def)

lemma fclose_simps [simp]:
  "events (fclose name w) = events w @ [FileClose name]" "files (fclose name w) x = files w x"
  by (simp_all add: fclose_def)

lemma writerows_ok:
  assumes "\<forall>r\<in>set rs. set (dict_keys r) \<subseteq> set fields" and "files w f = Some old"
  shows "fst (writerows f rs w) = Inr ()
    \<and> events (snd (writerows f rs w)) =
        events w @ map (\<lambda>r. FileWrite f (csv_record (row_values r))) rs
    \<and> files (snd (writerows f rs w)) f =
        Some (old @ concat (map (\<lambda>r. csv_record (row_values r)) rs))"
  using assms
proof (induction rs arbitrary: w old)
  case Nil
  then show ?case by simp
next
  case (Cons r rs)
  let ?w1 = "fwrite f (csv_record (row_values r)) w"
  from Cons.prems have r: "set (dict_keys r) \<subseteq> set fields"
    and rs: "\<forall>r\<in>set rs. set (dict_keys r) \<subseteq> set fields" by simp_all
  have f1: "files ?w1 f = Some (old @ csv_record (row_values r))"
    using Cons.prems(2) by simp
  have step: "writerows f (r # rs) w = writerows f rs ?w1"
    by (simp add: writerow_ok[OF r])
  from Cons.IH[OF rs f1] show ?case
    unfolding step by (simp add: Cons.prems(2))
qed

lemma header_row:
  "dict_keys (zip fields fields) = fields" "row_values (zip fields fields) = fields"
  by (simp_all add: fields_def row_values_def dict_get_def restval_def dict_keys_def)

lemma csv_record_fields: "csv_record fields = header_line"
  by (simp add: csv_record_def fields_def csv_field_def needs_quote_def lineterminator_def
      header_line_def)

lemma write_ok:
  assumes "\<forall>r\<in>set rs. set (dict_keys r) \<subseteq> set fields"
  shows "fst (write_auction_draft_values rs f w) = Inr ()
    \<and> events (snd (write_auction_draft_values rs f w)) = events w @ write_events f rs
    \<and> files (snd (write_auction_draft_values rs f w)) f = Some (csv_text rs)"
proof -
  define w2 where "w2 = fopen f (emit (Log INFO ''Writing to file %s'' [S f]) w)"
  define w3 where "w3 = fwrite f (csv_record fields) w2"
  have h: "writeheader f w2 = (Inr (), w3)"
    using writerow_ok[of "zip fields fields" f w2]
    by (simp add: writeheader_def header_row w3_def)
  have f3: "files w3 f = Some (csv_record fields)"
    by (simp add: w3_def w2_def)
  obtain u w4 where w4: "writerows f rs w3 = (u, w4)" by (cases "writerows f rs w3")
  from writerows_ok[OF assms f3] w4 have u: "u = Inr ()"
    and e4: "events w4 = events w3 @ map (\<lambda>r. FileWrite f (csv_record (row_values r))) rs"
    and f4: "files w4 f = Some (csv_record fields
                @ concat (map (\<lambda>r. csv_record (row_values r)) rs))"
    by simp_all
  have res: "write_auction_draft_values rs f w = (Inr (), fclose f w4)"
    by (simp add: write_auction_draft_values_def Let_def w2_def[symmetric] h w4 u)
  show ?thesis
    by (simp add: res e4 f4 w3_def w2_def write_events_def csv_text_def)
qed

section \<open>A run in which every page yields its records\<close>

lemma scraped_keys:
  assumes "\<forall>cnt\<in>set cnts. page_ok site cnt" "r \<in> set (concat (map (page_records site) cnts))"
  shows "set (dict_keys r) = set fields"
proof -
  from assms(2) obtain cnt where "cnt \<in> set cnts" "r \<in> set (page_records site cnt)" by auto
  with assms(1) page_records_keys[of site cnt r] show ?thesis by (auto simp: fields_def)
qed

lemma get_ok:
  assumes "\<forall>cnt\<in>set (range_step 0 n YAHOO_RESULTS_PER_PAGE). page_ok site cnt"
  shows "fst (get_auction_draft_values site f n w) = Inr ()
    \<and> events (snd (get_auction_draft_values site f n w)) =
        events w @ [ChromeStart, SetPageLoadTimeout 30]
          @ scrape_events site (range_step 0 n YAHOO_RESULTS_PER_PAGE)
          @ (if int (length (scraped site n)) < n
             then [total_warning (int (length (scraped site n))) n] else [])
          @ write_events f (scraped site n) @ [DriverClose]
    \<and> files (snd (get_auction_draft_values site f n w)) f = Some (csv_text (scraped site n))"
proof -
  have keys: "\<forall>r\<in>set (scraped site n). set (dict_keys r) \<subseteq> set fields"
    using scraped_keys[OF assms] by (auto simp: scraped_def)
  define w2 where "w2 = emit (SetPageLoadTimeout 30) (emit ChromeStart w)"
  define w3 where
    "w3 = w2\<lparr>events := events w2 @ scrape_events site (range_step 0 n YAHOO_RESULTS_PER_PAGE)\<rparr>"
  define w4 where "w4 = (if int (length (scraped site n)) < n
                        then emit (total_warning (int (length (scraped site n))) n) w3
                        else w3)"
  have sp: "scrape_pages site (range_step 0 n YAHOO_RESULTS_PER_PAGE) [] w2
              = (Inr (scraped site n), w3)"
    using scrape_pages_ok[OF assms, of "[]" w2] by (simp add: scraped_def w3_def)
  obtain u w5 where w5: "write_auction_draft_values (scraped site n) f w4 = (u, w5)"
    by (cases "write_auction_draft_values (scraped site n) f w4")
  from write_ok[OF keys, of f w4] w5 have u: "u = Inr ()"
    and e5: "events w5 = events w4 @ write_events f (scraped site n)"
    and f5: "files w5 f = Some (csv_text (scraped site n))"
    by simp_all
  have res: "get_auction_draft_values site f n w = (Inr (), emit DriverClose w5)"
    by (simp add: get_auction_draft_values_def Let_def w2_def[symmetric] sp w4_def[symmetric] w5 u)
  show ?thesis
    by (simp add: res e5 f5 w4_def w3_def w2_def)
qed

section \<open>The page offsets\<close>

lemma div_le0: "0 < s \<Longrightarrow> x < s \<Longrightarrow> x div s \<le> (0::int)"
  using zdiv_mono1[of x "s - 1" s] by simp

lemma range_step_closed:
  "0 < s \<Longrightarrow> range_step a n s = map (\<lambda>k. a + s * int k) [0..<nat ((n - a + s - 1) div s)]"
proof (induction a n s rule: range_step.induct)
  case (1 start stop step)
  show ?case
  proof (cases "start < stop")
    case False
    then have "stop - start + step - 1 < step" by simp
    then have "(stop - start + step - 1) div step \<le> 0"
      using "1.prems" by (simp add: div_le0)
    with False show ?thesis by (simp add: range_step.simps)
  next
    case True
    define x where "x = stop - start - 1"
    let ?m = "nat (x div step)"
    have x0: "0 \<le> x" using True by (simp add: x_def)
    have nn: "0 \<le> x div step"
      using x0 "1.prems" by (simp add: pos_imp_zdiv_nonneg_iff)
    have e1: "stop - start + step - 1 = x + step" by (simp add: x_def)
    have e2: "stop - (start + step) + step - 1 = x" by (simp add: x_def)
    have cnt: "nat ((stop - start + step - 1) div step) = Suc ?m"
    proof -
      from "1.prems" have "step \<noteq> 0" by simp
      then have "(x + step) div step = x div step + 1" by (rule div_add_self2)
      then show ?thesis unfolding e1 using nn by (simp add: nat_add_distrib)
    qed
    have "range_step start stop step = start # range_step (start + step) stop step"
      using True "1.prems" by (simp add: range_step.simps)
    also have "\<dots> = start # map (\<lambda>k. start + step + step * int k) [0..<?m]"
      using "1.IH" True "1.prems" unfolding e2 by simp
    also have "\<dots> = map (\<lambda>k. start + step * int k) [0..<Suc ?m]"
      by (simp add: upt_conv_Cons map_Suc_upt[symmetric] algebra_simps del: upt_Suc)
    finally show ?thesis by (simp only: cnt)
  qed
qed

lemma offsets_closed:
  "range_step 0 n YAHOO_RESULTS_PER_PAGE = map (\<lambda>k. 50 * int k) [0..<nat ((n + 49) div 50)]"
  using range_step_closed[of 50 0 n] by (simp add: YAHOO_RESULTS_PER_PAGE_def add.commute)

lemma offsets_nonpos: "n \<le> 0 \<Longrightarrow> range_step 0 n YAHOO_RESULTS_PER_PAGE = []"
  by (simp add: range_step.simps)

section \<open>The events of a whole run\<close>

lemma new_events_eq: "events w' = events w @ es \<Longrightarrow> new_events w w' = es"
  by (simp add: new_events_def)

lemma page_events_gets [simp]: "filter is_get (page_events cnt rows) = [DriverGet (page_url cnt)]"
  by (simp add: page_events_def page_warning_def debug_event_def filter_map o_def)

lemma scrape_events_gets:
  "filter is_get (scrape_events site cnts) = map (\<lambda>cnt. DriverGet (page_url cnt)) cnts"
  by (induction cnts) (simp_all add: scrape_events_def)

lemma write_events_no_get [simp]: "filter is_get (write_events f rs) = []"
  by (simp add: write_events_def filter_map o_def)

lemma page_events_no_file: "\<not> list_ex is_file_event (page_events cnt rows)"
  by (auto simp: page_events_def page_warning_def debug_event_def list_ex_iff)

lemma scrape_events_no_file: "\<not> list_ex is_file_event (scrape_events site cnts)"
  using page_events_no_file by (auto simp: scrape_events_def list_ex_iff)

lemma page_events_no_total [simp]: "filter is_total_warning (page_events cnt rows) = []"
  by (simp add: page_events_def page_warning_def debug_event_def filter_map o_def)

lemma scrape_events_no_total [simp]: "filter is_total_warning (scrape_events site cnts) = []"
  by (induction cnts) (simp_all add: scrape_events_def)

lemma write_events_no_total [simp]: "filter is_total_warning (write_events f rs) = []"
  by (simp add: write_events_def filter_map o_def)

lemma is_total_warning_total [simp]: "is_total_warning (total_warning k n)"
  by (simp add: total_warning_def)

text \<open>
  C4. When every page of the request loads and yields its records, the records of all pages
  are written to the CSV file whether or not they are as many as requested, and the warning
  about the total is logged exactly when they are fewer than \<open>total_players\<close>.
\<close>

theorem shortfall_warns_and_writes:
  assumes "\<forall>cnt\<in>set (range_step 0 n YAHOO_RESULTS_PER_PAGE). page_ok site cnt"
  shows "fst (get_auction_draft_values site f n w) = Inr ()
    \<and> files (snd (get_auction_draft_values site f n w)) f = Some (csv_text (scraped site n))
    \<and> filter is_total_warning (new_events w (snd (get_auction_draft_values site f n w))) =
        (if int (length (scraped site n)) < n
         then [total_warning (int (length (scraped site n))) n] else [])"
proof -
  note ok = get_ok[OF assms, of f w]
  from ok have ev: "new_events w (snd (get_auction_draft_values site f n w)) =
       [ChromeStart, SetPageLoadTimeout 30]
          @ scrape_events site (range_step 0 n YAHOO_RESULTS_PER_PAGE)
          @ (if int (length (scraped site n)) < n
             then [total_warning (int (length (scraped site n))) n] else [])
          @ write_events f (scraped site n) @ [DriverClose]"
    by (intro new_events_eq) simp
  show ?thesis using ok by (simp add: ev)
qed

theorem shortfall_warns_and_writes_witness:
  "range_step 0 51 YAHOO_RESULTS_PER_PAGE = [0, 50]
   \<and> page_ok two_page_site 0 \<and> page_ok two_page_site 50
   \<and> scraped two_page_site 51 = [kelce_record, mahomes_record]
   \<and> fst (get_auction_draft_values two_page_site ''stats.csv'' 51 world0) = Inr ()
   \<and> files (snd (get_auction_draft_values two_page_site ''stats.csv'' 51 world0)) ''stats.csv''
       = Some (csv_text [kelce_record, mahomes_record])
   \<and> filter is_total_warning
        (new_events world0 (snd (get_auction_draft_values two_page_site ''stats.csv'' 51 world0)))
       = [total_warning 2 51]
   \<and> range_step 0 1 YAHOO_RESULTS_PER_PAGE = [0]
   \<and> page_ok (one_page_site [kelce]) 0
   \<and> scraped (one_page_site [kelce]) 1 = [kelce_record]
   \<and> filter is_total_warning
        (new_events world0
           (snd (get_auction_draft_values (one_page_site [kelce]) ''stats.csv'' 1 world0)))
       = []"
proof -
  have r2: "range_step 0 51 YAHOO_RESULTS_PER_PAGE = [0, 50]" by code_simp
  have p2: "page_ok two_page_site 0" "page_ok two_page_site 50" by code_simp+
  have s2: "scraped two_page_site 51 = [kelce_record, mahomes_record]" by code_simp
  have h2: "\<forall>cnt\<in>set (range_step 0 51 YAHOO_RESULTS_PER_PAGE). page_ok two_page_site cnt"
    using p2 by (simp add: r2)
  have r1: "range_step 0 1 YAHOO_RESULTS_PER_PAGE = [0]" by code_simp
  have p1: "page_ok (one_page_site [kelce]) 0" by code_simp
  have s1: "scraped (one_page_site [kelce]) 1 = [kelce_record]" by code_simp
  have h1: "\<forall>cnt\<in>set (range_step 0 1 YAHOO_RESULTS_PER_PAGE). page_ok (one_page_site [kelce]) cnt"
    using p1 by (simp add: r1)
  from shortfall_warns_and_writes[OF h2, of "''stats.csv''" world0]
    shortfall_warns_and_writes[OF h1, of "''stats.csv''" world0]
    r2 p2 s2 r1 p1 s1
  show ?thesis by simp
qed

text \<open>
  C8. The offsets are 0, 50, 100, ... below \<open>total_players\<close>: none when it is not positive,
  otherwise the least number \<open>k\<close> of them with \<open>total_players \<le> 50 * k\<close>. When every
  page loads and yields its records, the pages are fetched at exactly these offsets in this
  order, the file holds the records of the pages in the order of the fetches, and the events
  of the call end with those of writing the file followed by the closing of the driver, all
  fetches coming before them.
\<close>

theorem page_fetches_in_order:
  assumes "\<forall>cnt\<in>set (range_step 0 n YAHOO_RESULTS_PER_PAGE). page_ok site cnt"
  shows "range_step 0 n YAHOO_RESULTS_PER_PAGE = map (\<lambda>k. 50 * int k) [0..<nat ((n + 49) div 50)]
    \<and> filter is_get (new_events w (snd (get_auction_draft_values site f n w))) =
        map (\<lambda>cnt. DriverGet (page_url cnt)) (range_step 0 n YAHOO_RESULTS_PER_PAGE)
    \<and> (n \<le> 0 \<longrightarrow> filter is_get (new_events w (snd (get_auction_draft_values site f n w))) = [])
    \<and> (0 < n \<longrightarrow>
         50 * (int (length (filter is_get
                 (new_events w (snd (get_auction_draft_values site f n w))))) - 1) < n
         \<and> n \<le> 50 * int (length (filter is_get
                 (new_events w (snd (get_auction_draft_values site f n w))))))
    \<and> files (snd (get_auction_draft_values site f n w)) f =
        Some (csv_text (concat (map (page_records site) (range_step 0 n YAHOO_RESULTS_PER_PAGE))))
    \<and> (\<exists>before. new_events w (snd (get_auction_draft_values site f n w)) =
           before @ write_events f (scraped site n) @ [DriverClose]
         \<and> filter is_get before =
             map (\<lambda>cnt. DriverGet (page_url cnt)) (range_step 0 n YAHOO_RESULTS_PER_PAGE)
         \<and> \<not> list_ex is_file_event before)"
proof -
  let ?new = "new_events w (snd (get_auction_draft_values site f n w))"
  let ?offs = "range_step 0 n YAHOO_RESULTS_PER_PAGE"
  let ?before = "[ChromeStart, SetPageLoadTimeout 30] @ scrape_events site ?offs
          @ (if int (length (scraped site n)) < n
             then [total_warning (int (length (scraped site n))) n] else [])"
  note ok = get_ok[OF assms, of f w]
  from ok have ev: "?new = ?before @ write_events f (scraped site n) @ [DriverClose]"
    by (intro new_events_eq) simp
  have gb: "filter is_get ?before = map (\<lambda>cnt. DriverGet (page_url cnt)) ?offs"
    by (simp add: scrape_events_gets total_warning_def)
  have nf: "\<not> list_ex is_file_event ?before"
    using scrape_events_no_file[of site ?offs] by (simp add: total_warning_def)
  have gets: "filter is_get ?new = map (\<lambda>cnt. DriverGet (page_url cnt)) ?offs"
    unfolding ev using gb by simp
  have len: "length (filter is_get ?new) = nat ((n + 49) div 50)"
    unfolding gets by (simp add: offsets_closed)
  have c1: "n \<le> 0 \<longrightarrow> filter is_get ?new = []"
    unfolding gets by (simp add: offsets_nonpos)
  have c2: "0 < n \<longrightarrow> 50 * (int (length (filter is_get ?new)) - 1) < n
         \<and> n \<le> 50 * int (length (filter is_get ?new))"
    unfolding len by auto
  have fl: "files (snd (get_auction_draft_values site f n w)) f = Some (csv_text (concat (map (page_records site) ?offs)))"
    using ok by (simp add: scraped_def)
  from ev gb nf have ex: "\<exists>before. ?new = before @ write_events f (scraped site n) @ [DriverClose]
         \<and> filter is_get before = map (\<lambda>cnt. DriverGet (page_url cnt)) ?offs
         \<and> \<not> list_ex is_file_event before" by blast
  from offsets_closed[of n] gets c1 c2 fl ex show ?thesis by blast
qed

theorem page_fetches_in_order_witness:
  "range_step 0 51 YAHOO_RESULTS_PER_PAGE = [0, 50]
   \<and> page_ok two_page_site 0 \<and> page_ok two_page_site 50
   \<and> filter is_get
        (new_events world0 (snd (get_auction_draft_values two_page_site ''stats.csv'' 51 world0)))
       = [DriverGet (page_url 0), DriverGet (page_url 50)]
   \<and> files (snd (get_auction_draft_values two_page_site ''stats.csv'' 51 world0)) ''stats.csv''
       = Some (csv_text (page_records two_page_site 0 @ page_records two_page_site 50))
   \<and> range_step 0 0 YAHOO_RESULTS_PER_PAGE = []
   \<and> filter is_get
        (new_events world0 (snd (get_auction_draft_values two_page_site ''stats.csv'' 0 world0)))
       = []"
proof -
  have r2: "range_step 0 51 YAHOO_RESULTS_PER_PAGE = [0, 50]" by code_simp
  have p2: "page_ok two_page_site 0" "page_ok two_page_site 50" by code_simp+
  have h2: "\<forall>cnt\<in>set (range_step 0 51 YAHOO_RESULTS_PER_PAGE). page_ok two_page_site cnt"
    using p2 by (simp add: r2)
  have r0: "range_step 0 0 YAHOO_RESULTS_PER_PAGE = []" by code_simp
  have h0: "\<forall>cnt\<in>set (range_step 0 0 YAHOO_RESULTS_PER_PAGE). page_ok two_page_site cnt"
    by (simp add: r0)
  from page_fetches_in_order[OF h2, of world0 "''stats.csv''"]
    page_fetches_in_order[OF h0, of world0 "''stats.csv''"]
    r2 p2 r0
  show ?thesis by simp
qed

section \<open>The events of a run that may raise\<close>

lemma process_rows_events:
  "\<exists>es. events (snd (process_rows rows acc w)) = events w @ es \<and> (\<forall>e\<in>set es. is_scrape_event e)"
proof (induction rows arbitrary: acc w)
  case Nil
  then show ?case by simp
next
  case (Cons row rows)
  show ?case
  proof (cases "player_values row")
    case (Inl e)
    then have "events (snd (process_rows (row # rows) acc w)) = events w @ [debug_event row]"
      by (simp add: process_player_eq)
    moreover have "\<forall>e\<in>set [debug_event row]. is_scrape_event e" by (simp add: debug_event_def)
    ultimately show ?thesis by blast
  next
    case (Inr d)
    from Cons.IH[of "acc @ [d]" "emit (debug_event row) w"] obtain es where
      es: "events (snd (process_rows rows (acc @ [d]) (emit (debug_event row) w)))
             = events (emit (debug_event row) w) @ es" "\<forall>e\<in>set es. is_scrape_event e"
      by blast
    have "events (snd (process_rows (row # rows) acc w)) = events w @ (debug_event row # es)"
      using es(1) by (simp add: process_player_eq Inr)
    moreover have "\<forall>e\<in>set (debug_event row # es). is_scrape_event e"
      using es(2) by (simp add: debug_event_def)
    ultimately show ?thesis by blast
  qed
qed

lemma process_page_events:
  "\<exists>es. events (snd (process_page driver cnt w)) = events w @ es \<and> (\<forall>e\<in>set es. is_scrape_event e)"
proof (cases "driver (page_url cnt)")
  case None
  then have "events (snd (process_page driver cnt w)) =
      events w @ [Log INFO ''Getting stats for count %d'' [I cnt], DriverGet (page_url cnt)]"
    by (simp add: process_page_def Let_def)
  moreover have "\<forall>e\<in>set [Log INFO ''Getting stats for count %d'' [I cnt], DriverGet (page_url cnt)].
     is_scrape_event e" by simp
  ultimately show ?thesis by blast
next
  case (Some rows)
  define w3 where "w3 = emit (FindElements base_xpath) (emit (DriverGet (page_url cnt))
         (emit (Log INFO ''Getting stats for count %d'' [I cnt]) w))"
  from process_rows_events[of rows "[]" w3] obtain es where
    es: "events (snd (process_rows rows [] w3)) = events w3 @ es" "\<forall>e\<in>set es. is_scrape_event e"
    by blast
  obtain r w4 where r: "process_rows rows [] w3 = (r, w4)" by (cases "process_rows rows [] w3")
  with es(1) have e4: "events w4 = events w3 @ es" by simp
  have "\<exists>tl. events (snd (process_page driver cnt w)) = events w4 @ tl \<and> (\<forall>e\<in>set tl. is_scrape_event e)"
  proof (cases r)
    case (Inl e)
    then have "events (snd (process_page driver cnt w)) = events w4 @ []"
      using Some r by (simp add: process_page_def Let_def w3_def)
    then show ?thesis by auto
  next
    case (Inr l)
    show ?thesis
    proof (cases "int (length l) < YAHOO_RESULTS_PER_PAGE")
      case True
      then have "events (snd (process_page driver cnt w)) = events w4 @ [page_warning (int (length l)) cnt]"
        using Some r Inr by (simp add: process_page_def Let_def w3_def)
      moreover have "\<forall>e\<in>set [page_warning (int (length l)) cnt]. is_scrape_event e"
        by (simp add: page_warning_def)
      ultimately show ?thesis by blast
    next
      case False
      then have "events (snd (process_page driver cnt w)) = events w4 @ []"
        using Some r Inr by (simp add: process_page_def Let_def w3_def)
      then show ?thesis by auto
    qed
  qed
  then obtain tl where tl: "events (snd (process_page driver cnt w)) = events w4 @ tl"
    "\<forall>e\<in>set tl. is_scrape_event e" by blast
  have "events (snd (process_page driver cnt w)) = events w @
     ([Log INFO ''Getting stats for count %d'' [I cnt], DriverGet (page_url cnt),
       FindElements base_xpath] @ es @ tl)"
    by (simp add: tl(1) e4 w3_def)
  moreover have "\<forall>e\<in>set ([Log INFO ''Getting stats for count %d'' [I cnt], DriverGet (page_url cnt),
       FindElements base_xpath] @ es @ tl). is_scrape_event e"
    using es(2) tl(2) by auto
  ultimately show ?thesis by blast
qed

lemma scrape_pages_events:
  "\<exists>es. events (snd (scrape_pages driver cnts acc w)) = events w @ es
     \<and> (\<forall>e\<in>set es. is_scrape_event e)"
proof (induction cnts arbitrary: acc w)
  case Nil
  then show ?case by simp
next
  case (Cons cnt cnts)
  obtain r w1 where r: "process_page driver cnt w = (r, w1)" by (cases "process_page driver cnt w")
  from process_page_events[of driver cnt w] r obtain es where
    es: "events w1 = events w @ es" "\<forall>e\<in>set es. is_scrape_event e" by auto
  show ?case
  proof (cases r)
    case (Inl e)
    then have "events (snd (scrape_pages driver (cnt # cnts) acc w)) = events w @ es"
      using r es(1) by simp
    with es(2) show ?thesis by blast
  next
    case (Inr ps)
    from Cons.IH[of "acc @ ps" w1] obtain es' where
      es': "events (snd (scrape_pages driver cnts (acc @ ps) w1)) = events w1 @ es'"
      "\<forall>e\<in>set es'. is_scrape_event e" by blast
    have "events (snd (scrape_pages driver (cnt # cnts) acc w)) = events w @ (es @ es')"
      using r Inr es(1) es'(1) by simp
    moreover have "\<forall>e\<in>set (es @ es'). is_scrape_event e" using es(2) es'(2) by auto
    ultimately show ?thesis by blast
  qed
qed

lemma scrape_not_file: "is_scrape_event e \<Longrightarrow> \<not> is_file_event e \<and> e \<noteq> DriverClose"
  by (cases e) auto

lemma get_Inr_pages_ok:
  assumes "fst (get_auction_draft_values site f n w) = Inr u"
  shows "\<forall>cnt\<in>set (range_step 0 n YAHOO_RESULTS_PER_PAGE). page_ok site cnt"
proof -
  define w2 where "w2 = emit (SetPageLoadTimeout 30) (emit ChromeStart w)"
  obtain r w3 where r: "scrape_pages site (range_step 0 n YAHOO_RESULTS_PER_PAGE) [] w2 = (r, w3)"
    by (cases "scrape_pages site (range_step 0 n YAHOO_RESULTS_PER_PAGE) [] w2")
  with assms obtain l where "r = Inr l"
    by (cases r) (auto simp: get_auction_draft_values_def Let_def w2_def)
  with r have "fst (scrape_pages site (range_step 0 n YAHOO_RESULTS_PER_PAGE) [] w2) = Inr l"
    by simp
  then show ?thesis by (rule scrape_pages_Inr)
qed

lemma get_Inl_events:
  assumes "isl (fst (get_auction_draft_values site f n w))"
  shows "\<exists>es. events (snd (get_auction_draft_values site f n w)) = events w @ es
           \<and> DriverClose \<notin> set es \<and> \<not> list_ex is_file_event es"
proof -
  define w2 where "w2 = emit (SetPageLoadTimeout 30) (emit ChromeStart w)"
  let ?offs = "range_step 0 n YAHOO_RESULTS_PER_PAGE"
  obtain r w3 where r: "scrape_pages site ?offs [] w2 = (r, w3)"
    by (cases "scrape_pages site ?offs [] w2")
  show ?thesis
  proof (cases r)
    case (Inl e)
    from scrape_pages_events[of site ?offs "[]" w2] r obtain es where
      es: "events w3 = events w2 @ es" "\<forall>e\<in>set es. is_scrape_event e" by auto
    have "events (snd (get_auction_draft_values site f n w)) =
        events w @ ([ChromeStart, SetPageLoadTimeout 30] @ es)"
      using r Inl es(1) by (simp add: get_auction_draft_values_def Let_def w2_def[symmetric])
         (simp add: w2_def)
    moreover have "DriverClose \<notin> set ([ChromeStart, SetPageLoadTimeout 30] @ es)"
      using es(2) scrape_not_file by auto
    moreover have "\<not> list_ex is_file_event ([ChromeStart, SetPageLoadTimeout 30] @ es)"
      using es(2) scrape_not_file by (auto simp: list_ex_iff)
    ultimately show ?thesis by blast
  next
    case (Inr l)
    with r have "fst (scrape_pages site ?offs [] w2) = Inr l" by simp
    then have "\<forall>cnt\<in>set ?offs. page_ok site cnt" by (rule scrape_pages_Inr)
    from get_ok[OF this, of f w] assms show ?thesis by simp
  qed
qed

text \<open>
  C5, as the code has it. The browser session is closed on the normal exit only: when
  \<open>get_auction_draft_values\<close> returns, closing the driver is the last thing it did, and it
  did it once; when it raises, the driver was not closed (and no file was touched).
\<close>

theorem close_only_on_normal_exit:
  "(fst (get_auction_draft_values site f n w) = Inr () \<longrightarrow>
      new_events w (snd (get_auction_draft_values site f n w)) \<noteq> []
      \<and> last (new_events w (snd (get_auction_draft_values site f n w))) = DriverClose
      \<and> count_list (new_events w (snd (get_auction_draft_values site f n w))) DriverClose = 1)
   \<and> (isl (fst (get_auction_draft_values site f n w)) \<longrightarrow>
        DriverClose \<notin> set (new_events w (snd (get_auction_draft_values site f n w)))
        \<and> \<not> list_ex is_file_event (new_events w (snd (get_auction_draft_values site f n w))))"
proof (intro conjI impI)
  assume a: "fst (get_auction_draft_values site f n w) = Inr ()"
  let ?new = "new_events w (snd (get_auction_draft_values site f n w))"
  let ?before = "[ChromeStart, SetPageLoadTimeout 30]
          @ scrape_events site (range_step 0 n YAHOO_RESULTS_PER_PAGE)
          @ (if int (length (scraped site n)) < n
             then [total_warning (int (length (scraped site n))) n] else [])
          @ write_events f (scraped site n)"
  from get_ok[OF get_Inr_pages_ok[OF a], of f w]
  have ev: "?new = ?before @ [DriverClose]"
    by (intro new_events_eq) simp
  show "?new \<noteq> []" by (simp add: ev)
  show "last ?new = DriverClose" unfolding ev by (rule last_snoc)
  have "count_list (scrape_events site cnts) DriverClose = 0" for cnts
    by (induction cnts)
      (simp_all add: scrape_events_def page_events_def page_warning_def debug_event_def
        count_list_0_iff image_iff)
  moreover have "count_list (write_events f rs) DriverClose = 0" for rs
    by (simp add: write_events_def count_list_0_iff image_iff)
  ultimately show "count_list ?new DriverClose = 1"
    unfolding ev by (simp add: total_warning_def)
next
  assume a: "isl (fst (get_auction_draft_values site f n w))"
  from get_Inl_events[OF a] obtain es where
    es: "events (snd (get_auction_draft_values site f n w)) = events w @ es"
    "DriverClose \<notin> set es" "\<not> list_ex is_file_event es" by blast
  from es(1) have "new_events w (snd (get_auction_draft_values site f n w)) = es"
    by (rule new_events_eq)
  with es(2,3) show "DriverClose \<notin> set (new_events w (snd (get_auction_draft_values site f n w)))"
    and "\<not> list_ex is_file_event (new_events w (snd (get_auction_draft_values site f n w)))"
    by simp_all
qed

text \<open>
  C5 as stated fails: on a page whose second row has no \<open>" - "\<close> in its combined cell the
  call raises and the driver is never closed.
\<close>

theorem close_skipped_counterexample:
  "isl (fst (get_auction_draft_values (one_page_site [kelce, no_team, mahomes]) ''stats.csv'' 3 world0))
   \<and> DriverClose \<notin> set (events (snd (get_auction_draft_values
         (one_page_site [kelce, no_team, mahomes]) ''stats.csv'' 3 world0)))"
  by code_simp

theorem close_only_on_normal_exit_witness:
  "fst (get_auction_draft_values two_page_site ''stats.csv'' 51 world0) = Inr ()
   \<and> last (new_events world0 (snd (get_auction_draft_values two_page_site ''stats.csv'' 51 world0)))
       = DriverClose
   \<and> count_list
        (new_events world0 (snd (get_auction_draft_values two_page_site ''stats.csv'' 51 world0)))
        DriverClose = 1
   \<and> isl (fst (get_auction_draft_values (one_page_site [kelce, no_team, mahomes])
               ''stats.csv'' 3 world0))
   \<and> DriverClose \<notin> set (new_events world0 (snd (get_auction_draft_values
         (one_page_site [kelce, no_team, mahomes]) ''stats.csv'' 3 world0)))"
proof -
  have h1: "fst (get_auction_draft_values two_page_site ''stats.csv'' 51 world0) = Inr ()"
    by code_simp
  have h2: "isl (fst (get_auction_draft_values (one_page_site [kelce, no_team, mahomes])
               ''stats.csv'' 3 world0))"
    by code_simp
  from close_only_on_normal_exit[of two_page_site "''stats.csv''" 51 world0]
    close_only_on_normal_exit[of "one_page_site [kelce, no_team, mahomes]" "''stats.csv''" 3 world0]
    h1 h2
  show ?thesis by blast
qed

section \<open>The file of the empty list\<close>

lemma lines_from_no_LF: "LF \<notin> set l \<Longrightarrow> lines_from cur (l @ LF # rest) = (cur @ l @ [LF]) # lines_from [] rest"
  by (induction l arbitrary: cur) auto

lemma readlines_header: "readlines header_line = [header_line]"
  by (simp add: readlines_def header_line_def)

lemma DictReader_header: "DictReader header_line = Some []"
  by code_simp

lemma csv_reader_header: "csv_reader header_line = Some [fields]"
  by code_simp

text \<open>
  C9. For the empty list \<open>write_auction_draft_values\<close> returns normally and leaves in the
  file the header line alone: the six column names, comma separated, and the line
  terminator; read back, it is the record of the column names and no data record. A request
  for zero or fewer players fetches no page and writes this file.
\<close>

theorem empty_list_writes_header:
  "fst (write_auction_draft_values [] f w) = Inr ()
   \<and> files (snd (write_auction_draft_values [] f w)) f = Some header_line
   \<and> header_line = ''Name,Position,Team,Projected Value,Average Cost,Percent Drafted'' @ [CR, LF]
   \<and> readlines header_line = [header_line]
   \<and> csv_reader header_line = Some [fields]
   \<and> (n \<le> 0 \<longrightarrow>
        fst (get_auction_draft_values site f n w) = Inr ()
        \<and> files (snd (get_auction_draft_values site f n w)) f = Some header_line)"
proof -
  have w: "fst (write_auction_draft_values [] f w) = Inr ()
    \<and> files (snd (write_auction_draft_values [] f w)) f = Some header_line"
    using write_ok[of "[]" f w] by (simp add: csv_text_def csv_record_fields)
  have g: "n \<le> 0 \<longrightarrow>
        fst (get_auction_draft_values site f n w) = Inr ()
        \<and> files (snd (get_auction_draft_values site f n w)) f = Some header_line"
  proof
    assume n: "n \<le> 0"
    then have offs: "range_step 0 n YAHOO_RESULTS_PER_PAGE = []" by (rule offsets_nonpos)
    then have "\<forall>cnt\<in>set (range_step 0 n YAHOO_RESULTS_PER_PAGE). page_ok site cnt" by simp
    from get_ok[OF this, of f w] offs
    show "fst (get_auction_draft_values site f n w) = Inr ()
        \<and> files (snd (get_auction_draft_values site f n w)) f = Some header_line"
      by (simp add: scraped_def csv_text_def csv_record_fields)
  qed
  from w g readlines_header csv_reader_header show ?thesis by (simp add: header_line_def)
qed

theorem empty_list_writes_header_witness:
  "(0::int) \<le> 0
   \<and> fst (get_auction_draft_values two_page_site ''stats.csv'' 0 world0) = Inr ()
   \<and> files (snd (get_auction_draft_values two_page_site ''stats.csv'' 0 world0)) ''stats.csv''
       = Some header_line
   \<and> (-5::int) \<le> 0
   \<and> files (snd (get_auction_draft_values two_page_site ''stats.csv'' (-5) world0)) ''stats.csv''
       = Some header_line"
proof -
  have h: "(0::int) \<le> 0" "(-5::int) \<le> 0" by simp_all
  from empty_list_writes_header[of "''stats.csv''" world0 0 two_page_site]
    empty_list_writes_header[of "''stats.csv''" world0 "-5" two_page_site] h
  show ?thesis by blast
qed

section \<open>The rows and the lines of the file\<close>

lemma csv_field_no_LF: "LF \<notin> set v \<Longrightarrow> LF \<notin> set (csv_field v)"
  by (auto simp: csv_field_def split: if_splits)

lemma str_join_no_LF:
  "\<forall>v\<in>set vs. LF \<notin> set v \<Longrightarrow> LF \<notin> set (str_join [COMMA] vs)"
  by (induction "[COMMA]" vs rule: str_join.induct) auto

lemma csv_record_line:
  assumes "\<forall>v\<in>set vs. LF \<notin> set v"
  shows "lines_from [] (csv_record vs @ rest) = csv_record vs # lines_from [] rest"
proof -
  define body where "body = (if vs = [[]] then [DQUOTE, DQUOTE] else str_join [COMMA] (map csv_field vs)) @ [CR]"
  have "LF \<notin> set (str_join [COMMA] (map csv_field vs))"
    using assms by (intro str_join_no_LF) (auto simp: csv_field_no_LF)
  then have nl: "LF \<notin> set body" by (simp add: body_def)
  have rec: "csv_record vs = body @ [LF]"
    by (simp add: csv_record_def body_def lineterminator_def)
  show ?thesis
    using lines_from_no_LF[OF nl, of "[]" rest] by (simp add: rec)
qed

lemma readlines_records:
  "\<forall>vs\<in>set rows. \<forall>v\<in>set vs. LF \<notin> set v \<Longrightarrow>
   lines_from [] (concat (map csv_record rows)) = map csv_record rows"
  by (induction rows) (simp_all add: csv_record_line)

lemma row_values_six:
  "row_values r = [dict_get r ''Name'' [], dict_get r ''Position'' [], dict_get r ''Team'' [],
      dict_get r ''Projected Value'' [], dict_get r ''Average Cost'' [],
      dict_get r ''Percent Drafted'' []]"
  by (simp add: row_values_def fields_def restval_def)

text \<open>
  C2, as the code has it. For records with the six keys the call returns normally and the
  file holds the header row, the column names in their fixed order, followed by one row per
  record in the order of the list, each row the six values in column order, quoted where
  needed, joined by commas and ended by CR LF. When no value holds a line feed, the lines
  of the file are exactly these rows: one header line and one line per record.
\<close>

theorem csv_rows_in_order:
  assumes "\<forall>r\<in>set rs. set (dict_keys r) = set fields"
  shows "fst (write_auction_draft_values rs f w) = Inr ()
    \<and> files (snd (write_auction_draft_values rs f w)) f =
        Some (header_line @ concat (map (\<lambda>r. csv_record (row_values r)) rs))
    \<and> header_line = ''Name,Position,Team,Projected Value,Average Cost,Percent Drafted'' @ [CR, LF]
    \<and> (\<forall>r. csv_record (row_values r) =
          str_join [COMMA] (map csv_field
            [dict_get r ''Name'' [], dict_get r ''Position'' [], dict_get r ''Team'' [],
             dict_get r ''Projected Value'' [], dict_get r ''Average Cost'' [],
             dict_get r ''Percent Drafted'' []]) @ [CR, LF])
    \<and> ((\<forall>r\<in>set rs. \<forall>v\<in>set (row_values r). LF \<notin> set v) \<longrightarrow>
         readlines (header_line @ concat (map (\<lambda>r. csv_record (row_values r)) rs)) =
           header_line # map (\<lambda>r. csv_record (row_values r)) rs)"
proof -
  from assms have keys: "\<forall>r\<in>set rs. set (dict_keys r) \<subseteq> set fields" by simp
  have a: "fst (write_auction_draft_values rs f w) = Inr ()
    \<and> files (snd (write_auction_draft_values rs f w)) f =
        Some (header_line @ concat (map (\<lambda>r. csv_record (row_values r)) rs))"
    using write_ok[OF keys, of f w] by (simp add: csv_text_def csv_record_fields)
  have b: "\<forall>r. csv_record (row_values r) =
          str_join [COMMA] (map csv_field
            [dict_get r ''Name'' [], dict_get r ''Position'' [], dict_get r ''Team'' [],
             dict_get r ''Projected Value'' [], dict_get r ''Average Cost'' [],
             dict_get r ''Percent Drafted'' []]) @ [CR, LF]"
    by (simp add: row_values_six csv_record_def lineterminator_def)
  have c: "(\<forall>r\<in>set rs. \<forall>v\<in>set (row_values r). LF \<notin> set v) \<longrightarrow>
         readlines (header_line @ concat (map (\<lambda>r. csv_record (row_values r)) rs)) =
           header_line # map (\<lambda>r. csv_record (row_values r)) rs"
  proof
    assume nl: "\<forall>r\<in>set rs. \<forall>v\<in>set (row_values r). LF \<notin> set v"
    have hl: "\<forall>v\<in>set fields. LF \<notin> set v" by (simp add: fields_def)
    have "\<forall>vs\<in>set (map row_values rs). \<forall>v\<in>set vs. LF \<notin> set v" using nl by simp
    from readlines_records[OF this]
    have "lines_from [] (concat (map (\<lambda>r. csv_record (row_values r)) rs))
            = map (\<lambda>r. csv_record (row_values r)) rs"
      by (simp add: o_def)
    with csv_record_line[OF hl, of "concat (map (\<lambda>r. csv_record (row_values r)) rs)"]
    show "readlines (header_line @ concat (map (\<lambda>r. csv_record (row_values r)) rs)) =
           header_line # map (\<lambda>r. csv_record (row_values r)) rs"
      by (simp add: readlines_def csv_record_fields)
  qed
  from a b c show ?thesis by (simp add: header_line_def)
qed


text \<open>
  C2 as stated fails: a scraped record whose name holds a line feed is written as a quoted
  field that spans two lines, so the file of this one record has three lines, not two.
\<close>

theorem one_line_per_record_counterexample:
  "fst (process_player multiline_row world0) = Inr multiline_record
   \<and> files (snd (write_auction_draft_values [multiline_record] ''stats.csv'' world0)) ''stats.csv''
       = Some (csv_text [multiline_record])
   \<and> readlines (csv_text [multiline_record]) =
       [header_line,
        DQUOTE # ''Travis'' @ [LF],
        ''Kelce'' @ [DQUOTE] @ '',TE,KC,$45,$47.1,100%'' @ [CR, LF]]
   \<and> length (readlines (csv_text [multiline_record])) \<noteq> 1 + length [multiline_record]"
  by code_simp

theorem csv_rows_in_order_witness:
  "set (dict_keys kelce_record) = set fields
   \<and> set (dict_keys mahomes_record) = set fields
   \<and> list_all (\<lambda>v. LF \<notin> set v) (row_values kelce_record)
   \<and> list_all (\<lambda>v. LF \<notin> set v) (row_values mahomes_record)
   \<and> fst (write_auction_draft_values [kelce_record, mahomes_record] ''stats.csv'' world0) = Inr ()
   \<and> files (snd (write_auction_draft_values [kelce_record, mahomes_record] ''stats.csv'' world0))
         ''stats.csv''
       = Some (header_line @ ''Travis Kelce,TE,KC,$45,$47.1,100%'' @ [CR, LF]
                 @ ''Patrick Mahomes,QB,KC,$30,$28.5,99%'' @ [CR, LF])
   \<and> readlines (header_line @ ''Travis Kelce,TE,KC,$45,$47.1,100%'' @ [CR, LF]
                 @ ''Patrick Mahomes,QB,KC,$30,$28.5,99%'' @ [CR, LF])
       = [header_line, ''Travis Kelce,TE,KC,$45,$47.1,100%'' @ [CR, LF],
          ''Patrick Mahomes,QB,KC,$30,$28.5,99%'' @ [CR, LF]]"
proof -
  have k: "set (dict_keys kelce_record) = set fields" "set (dict_keys mahomes_record) = set fields"
    by code_simp+
  have l: "list_all (\<lambda>v. LF \<notin> set v) (row_values kelce_record)"
    "list_all (\<lambda>v. LF \<notin> set v) (row_values mahomes_record)"
    by code_simp+
  have r: "csv_record (row_values kelce_record) = ''Travis Kelce,TE,KC,$45,$47.1,100%'' @ [CR, LF]"
    "csv_record (row_values mahomes_record) = ''Patrick Mahomes,QB,KC,$30,$28.5,99%'' @ [CR, LF]"
    by code_simp+
  have h1: "\<forall>r\<in>set [kelce_record, mahomes_record]. set (dict_keys r) = set fields"
    using k by simp
  have h2: "\<forall>r\<in>set [kelce_record, mahomes_record]. \<forall>v\<in>set (row_values r). LF \<notin> set v"
    using l by (simp add: list_all_iff)
  from csv_rows_in_order[OF h1, of "''stats.csv''" world0] h2 k l r
  show ?thesis by simp
qed

section \<open>Reading the file back\<close>

lemma read_plain:
  "\<not> list_ex needs_quote s \<Longrightarrow>
   foldl parse_char (InField, fld, row, rows) s = (InField, fld @ s, row, rows)"
  by (induction s arbitrary: fld) (auto simp: needs_quote_def lineterminator_def)

lemma read_quoted:
  "foldl parse_char (InQuotedField, fld, row, rows)
     (concat (map (\<lambda>c. if c = DQUOTE then [DQUOTE, DQUOTE] else [c]) s))
   = (InQuotedField, fld @ s, row, rows)"
  by (induction s arbitrary: fld) auto

text \<open>After the text of a field, the reader is about to end that field.\<close>

lemma read_field_then:
  assumes "d = COMMA \<or> d = CR"
  shows "foldl parse_char (StartField, fld, row, rows) (csv_field v @ [d]) =
     (if d = COMMA then (StartField, [], row @ [v], rows)
      else (StartRecord, [], [], rows @ [row @ [v]]))"
proof (cases "list_ex needs_quote v")
  case True
  then show ?thesis using assms
    by (auto simp: csv_field_def start_field_def read_quoted)
next
  case False
  show ?thesis
  proof (cases v)
    case Nil
    then show ?thesis using assms by (auto simp: csv_field_def start_field_def)
  next
    case (Cons c cs)
    with False have c: "\<not> needs_quote c" and cs: "\<not> list_ex needs_quote cs" by simp_all
    from c have "start_field row rows c = (InField, [c], row, rows)"
      by (auto simp: start_field_def needs_quote_def lineterminator_def)
    then show ?thesis using assms False Cons read_plain[OF cs, of "[c]" row rows]
      by (auto simp: csv_field_def)
  qed
qed

lemma read_fields:
  "vs \<noteq> [] \<Longrightarrow>
   foldl parse_char (StartField, fld, row, rows) (str_join [COMMA] (map csv_field vs) @ [CR])
     = (StartRecord, [], [], rows @ [row @ vs])"
proof (induction vs arbitrary: fld row)
  case Nil
  then show ?case by simp
next
  case (Cons v vs)
  show ?case
  proof (cases vs)
    case Nil
    then show ?thesis using read_field_then[of CR fld row rows v] by simp
  next
    case (Cons v' vs')
    have "foldl parse_char (StartField, fld, row, rows)
            (str_join [COMMA] (map csv_field (v # vs)) @ [CR])
          = foldl parse_char
              (foldl parse_char (StartField, fld, row, rows) (csv_field v @ [COMMA]))
              (str_join [COMMA] (map csv_field vs) @ [CR])"
      by (simp add: Cons)
    also have "\<dots> = foldl parse_char (StartField, [], row @ [v], rows)
              (str_join [COMMA] (map csv_field vs) @ [CR])"
      using read_field_then[of COMMA fld row rows v] by simp
    also have "\<dots> = (StartRecord, [], [], rows @ [(row @ [v]) @ vs])"
      using Cons.IH[of "[]" "row @ [v]"] Cons by simp
    finally show ?thesis by simp
  qed
qed


lemma record_first_char:
  assumes "vs \<noteq> []" "vs \<noteq> [[]]"
  shows "\<exists>c s. str_join [COMMA] (map csv_field vs) @ [CR] = c # s \<and> c \<noteq> CR \<and> c \<noteq> LF"
proof -
  from assms(1) obtain v rest where vs: "vs = v # rest" by (cases vs) auto
  have j: "\<exists>t. str_join [COMMA] (map csv_field vs) = csv_field v @ t"
    unfolding vs by (cases rest) auto
  show ?thesis
  proof (cases "list_ex needs_quote v")
    case True
    with j show ?thesis by (auto simp: csv_field_def)
  next
    case False
    show ?thesis
    proof (cases v)
      case Nil
      with assms(2) vs obtain v' rest' where "rest = v' # rest'" by (cases rest) auto
      with vs Nil show ?thesis by (simp add: csv_field_def)
    next
      case (Cons c cs)
      with False have "\<not> needs_quote c" by simp
      then have "c \<noteq> CR" "c \<noteq> LF" by (auto simp: needs_quote_def lineterminator_def)
      with j False Cons show ?thesis by (auto simp: csv_field_def)
    qed
  qed
qed

lemma read_record:
  assumes "vs \<noteq> []" "vs \<noteq> [[]]"
  shows "foldl parse_char (StartRecord, fld, row, rows) (csv_record vs)
           = (StartRecord, [], [], rows @ [vs])"
proof -
  from record_first_char[OF assms] obtain c s where
    cs: "str_join [COMMA] (map csv_field vs) @ [CR] = c # s" and c: "c \<noteq> CR" "c \<noteq> LF"
    by blast
  have "parse_char (StartRecord, fld, row, rows) c = parse_char (StartField, fld, [], rows) c"
    using c by simp
  then have "foldl parse_char (StartRecord, fld, row, rows) (c # s)
           = foldl parse_char (StartField, fld, [], rows) (c # s)" by simp
  also have "\<dots> = (StartRecord, [], [], rows @ [[] @ vs])"
    unfolding cs[symmetric] using assms(1) by (rule read_fields)
  finally have body: "foldl parse_char (StartRecord, fld, row, rows)
      (str_join [COMMA] (map csv_field vs) @ [CR]) = (StartRecord, [], [], rows @ [vs])"
    by (simp add: cs)
  have rec: "csv_record vs = (str_join [COMMA] (map csv_field vs) @ [CR]) @ [LF]"
    using assms(2) by (simp add: csv_record_def lineterminator_def)
  define t where "t = str_join [COMMA] (map csv_field vs) @ [CR]"
  have "foldl parse_char (StartRecord, fld, row, rows) (t @ [LF])
          = foldl parse_char (foldl parse_char (StartRecord, fld, row, rows) t) [LF]"
    by (rule foldl_append)
  also have "\<dots> = foldl parse_char (StartRecord, [], [], rows @ [vs]) [LF]"
    using body by (simp only: t_def)
  finally show ?thesis by (simp add: rec t_def)
qed

lemma read_records:
  "\<forall>vs\<in>set rows. vs \<noteq> [] \<and> vs \<noteq> [[]] \<Longrightarrow>
   parse_end (foldl parse_char (StartRecord, fld, row, acc) (concat (map csv_record rows)))
     = Some (acc @ rows)"
proof (induction rows arbitrary: fld row acc)
  case Nil
  then show ?case by simp
next
  case (Cons vs rows)
  then have vs: "vs \<noteq> []" "vs \<noteq> [[]]" and rest: "\<forall>vs\<in>set rows. vs \<noteq> [] \<and> vs \<noteq> [[]]"
    by simp_all
  show ?case
    using Cons.IH[OF rest, of "[]" "[]" "acc @ [vs]"]
    by (simp add: read_record[OF vs])
qed

lemma length_row_values: "length (row_values r) = 6"
  by (simp add: row_values_def fields_def)

lemma csv_reader_text: "csv_reader (csv_text rs) = Some (fields # map row_values rs)"
proof -
  have t: "csv_text rs = concat (map csv_record (fields # map row_values rs))"
    by (simp add: csv_text_def o_def)
  have "\<forall>vs\<in>set (fields # map row_values rs). vs \<noteq> [] \<and> vs \<noteq> [[]]"
  proof
    fix vs assume "vs \<in> set (fields # map row_values rs)"
    then have "length vs = 6" by (auto simp: length_row_values fields_def)
    then show "vs \<noteq> [] \<and> vs \<noteq> [[]]" by auto
  qed
  from read_records[OF this, of "[]" "[]" "[]"] show ?thesis
    unfolding csv_reader_def t by simp
qed

lemma DictReader_text:
  "DictReader (csv_text rs) = Some (map (\<lambda>r. zip fields (row_values r)) rs)"
  by (simp add: DictReader_def csv_reader_text o_def)

lemma map_of_read_back:
  assumes "set (dict_keys r) = set fields"
  shows "map_of (zip fields (row_values r)) = map_of r"
proof
  fix k
  show "map_of (zip fields (row_values r)) k = map_of r k"
  proof (cases "k \<in> set fields")
    case True
    with assms have "k \<in> fst ` set r" by (simp add: dict_keys_def)
    then obtain v where v: "map_of r k = Some v"
      by (cases "map_of r k") (auto simp: map_of_eq_None_iff)
    then show ?thesis using True
      by (simp add: row_values_def map_of_zip_map dict_get_def)
  next
    case False
    with assms have "k \<notin> fst ` set r" by (simp add: dict_keys_def)
    then have "map_of r k = None" by (simp add: map_of_eq_None_iff)
    then show ?thesis using False
      by (simp add: row_values_def map_of_zip_map)
  qed
qed

text \<open>
  C7. For records with the six keys, the file that \<open>write_auction_draft_values\<close> leaves,
  read back by the reader of the excel dialect with its first record as column names, gives
  as many records as were written, in the same order, each with the column names as keys
  and, as a mapping from key to value, equal to the record written.
\<close>

theorem csv_round_trip:
  assumes "\<forall>r\<in>set rs. set (dict_keys r) = set fields"
  shows "fst (write_auction_draft_values rs f w) = Inr ()
    \<and> files (snd (write_auction_draft_values rs f w)) f = Some (csv_text rs)
    \<and> DictReader (csv_text rs) = Some (map (\<lambda>r. zip fields (row_values r)) rs)
    \<and> length (map (\<lambda>r. zip fields (row_values r)) rs) = length rs
    \<and> map dict_keys (map (\<lambda>r. zip fields (row_values r)) rs) = map (\<lambda>r. fields) rs
    \<and> map map_of (map (\<lambda>r. zip fields (row_values r)) rs) = map map_of rs"
proof -
  from assms have keys: "\<forall>r\<in>set rs. set (dict_keys r) \<subseteq> set fields" by simp
  have a: "fst (write_auction_draft_values rs f w) = Inr ()
    \<and> files (snd (write_auction_draft_values rs f w)) f = Some (csv_text rs)"
    using write_ok[OF keys, of f w] by simp
  have b: "map dict_keys (map (\<lambda>r. zip fields (row_values r)) rs) = map (\<lambda>r. fields) rs"
    by (simp add: dict_keys_def length_row_values fields_def row_values_def)
  have c: "map map_of (map (\<lambda>r. zip fields (row_values r)) rs) = map map_of rs"
    using assms by (simp add: map_of_read_back)
  from a b c DictReader_text[of rs] show ?thesis by simp
qed

theorem csv_round_trip_witness:
  "set (dict_keys quoted_record) = set fields
   \<and> set (dict_keys kelce_record) = set fields
   \<and> files (snd (write_auction_draft_values [quoted_record, kelce_record] ''stats.csv'' world0))
         ''stats.csv''
       = Some (csv_text [quoted_record, kelce_record])
   \<and> DictReader (csv_text [quoted_record, kelce_record]) =
       Some [[(''Name'', ''Smith, '' @ [DQUOTE] @ ''Jr'' @ [DQUOTE, CR, LF] @ ''II''),
              (''Position'', []), (''Team'', [LF]), (''Projected Value'', ''$1,000''),
              (''Average Cost'', [DQUOTE]), (''Percent Drafted'', ''0%'')],
             [(''Name'', ''Travis Kelce''), (''Position'', ''TE''), (''Team'', ''KC''),
              (''Projected Value'', ''$45''), (''Average Cost'', ''$47.1''),
              (''Percent Drafted'', ''100%'')]]
   \<and> map map_of [zip fields (row_values quoted_record), zip fields (row_values kelce_record)]
       = map map_of [quoted_record, kelce_record]"
proof -
  have k: "set (dict_keys quoted_record) = set fields" "set (dict_keys kelce_record) = set fields"
    by code_simp+
  have z: "zip fields (row_values quoted_record) =
            [(''Name'', ''Smith, '' @ [DQUOTE] @ ''Jr'' @ [DQUOTE, CR, LF] @ ''II''),
              (''Position'', []), (''Team'', [LF]), (''Projected Value'', ''$1,000''),
              (''Average Cost'', [DQUOTE]), (''Percent Drafted'', ''0%'')]"
    "zip fields (row_values kelce_record) =
            [(''Name'', ''Travis Kelce''), (''Position'', ''TE''), (''Team'', ''KC''),
              (''Projected Value'', ''$45''), (''Average Cost'', ''$47.1''),
              (''Percent Drafted'', ''100%'')]"
    by code_simp+
  have h: "\<forall>r\<in>set [quoted_record, kelce_record]. set (dict_keys r) = set fields"
    using k by simp
  from csv_round_trip[OF h, of "''stats.csv''" world0] k z
  show ?thesis by simp
qed

end
